theory Spec2Isabelle
  imports Complex_Main "HOL-Library.AList" "HOL-Library.Sublist" "HOL-Library.Word"
begin

section \<open>Python containers\<close>

text \<open>
  A Python \<^verbatim>\<open>dict\<close> (and \<^verbatim>\<open>OrderedDict\<close>) is modelled as an association list in
  insertion order. \<open>map_of\<close> reads a key, \<open>AList.update\<close> is the item assignment
  \<^verbatim>\<open>d[k] = v\<close>: an existing key keeps its position, a new key goes to the end.
\<close>

type_synonym ('k, 'v) dict = "('k \<times> 'v) list"

definition dict_keys :: "('k, 'v) dict \<Rightarrow> 'k list" where
  "dict_keys d = map fst d"

definition dict_contains :: "'k \<Rightarrow> ('k, 'v) dict \<Rightarrow> bool" where
  "dict_contains k d = (k \<in> set (dict_keys d))"

text \<open>\<^verbatim>\<open>OrderedDict(pairs)\<close>: the pairs are assigned one after the other.\<close>

definition OrderedDict :: "('k \<times> 'v) list \<Rightarrow> ('k, 'v) dict" where
  "OrderedDict pairs = fold (\<lambda>(k, v) d. AList.update k v d) pairs []"

text \<open>Exceptions of the module, as values.\<close>

datatype error =
    IndexError
  | KeyError
  | ValueError
  | RuntimeError
  | EventError string
  | EventLookupError string
  | OtherError string

section \<open>Decoded events\<close>

text \<open>
  The dictionaries that \<^verbatim>\<open>eth_event\<close> and \<^verbatim>\<open>_decode_ds_note\<close> produce and that
  \<^verbatim>\<open>EventDict.__init__\<close> reads: an event has a name, an address and a list of data
  items, each with a name, a type and a value. Values are opaque (\<open>'v\<close>).
\<close>

record 'v event_input =
  in_name :: string
  in_type :: string
  in_value :: 'v
  in_decoded :: bool

record 'v event =
  ev_name :: string
  ev_address :: string
  ev_decoded :: bool
  ev_data :: "'v event_input list"

section \<open>\<^verbatim>\<open>_EventItem\<close>\<close>

text \<open>
  \<^verbatim>\<open>_EventItem._ordered\<close> holds ordered dictionaries when the item is one firing
  (built in the first loop of \<^verbatim>\<open>EventDict.__init__\<close>) and holds \<^verbatim>\<open>_EventItem\<close> objects
  when the item is the group of all firings of one name (built in the second loop).
  The same methods run on both.
\<close>

datatype 'v EventItem =
  EventItem (name: string) (address: "string option") (ordered: "'v entry list") (pos: "nat list")
and 'v entry =
    Fields "(string, 'v) dict"
  | Item "'v EventItem"

text \<open>\<^verbatim>\<open>str.replace(old, new)\<close> for a non-empty \<open>old\<close>; the module calls it with
  \<^verbatim>\<open>" (indexed)"\<close> only.\<close>

function replace :: "string \<Rightarrow> string \<Rightarrow> string \<Rightarrow> string" where
  "replace old new [] = []"
| "replace old new (c # cs) =
     (if old \<noteq> [] \<and> prefix old (c # cs)
      then new @ replace old new (drop (length old) (c # cs))
      else c # replace old new cs)"
  by pat_completeness auto
termination
  by (relation "measure (\<lambda>(old, new, s). length s)") auto

text \<open>\<^verbatim>\<open>sep.join(xs)\<close>.\<close>

fun join :: "string \<Rightarrow> string list \<Rightarrow> string" where
  "join sep [] = []"
| "join sep [x] = x"
| "join sep (x # y # ys) = x @ sep @ join sep (y # ys)"

text \<open>\<^verbatim>\<open>_EventItem.__contains__\<close>: \<^verbatim>\<open>name in self._ordered[0]\<close>. On an empty
  \<^verbatim>\<open>_ordered\<close> the index raises.\<close>

fun contains :: "'v EventItem \<Rightarrow> string \<Rightarrow> error + bool" where
  "contains (EventItem n a [] p) k = Inl IndexError"
| "contains (EventItem n a (Fields d # rest) p) k = Inr (dict_contains k d)"
| "contains (EventItem n a (Item e # rest) p) k = contains e k"

text \<open>\<^verbatim>\<open>_EventItem.keys\<close>: the keys of \<^verbatim>\<open>self._ordered[0]\<close>, each with
  \<^verbatim>\<open>" (indexed)"\<close> removed.\<close>

fun keys :: "'v EventItem \<Rightarrow> error + string list" where
  "keys (EventItem n a [] p) = Inl IndexError"
| "keys (EventItem n a (Fields d # rest) p) =
     Inr (map (replace '' (indexed)'' '''') (dict_keys d))"
| "keys (EventItem n a (Item e # rest) p) =
     (case keys e of
        Inl err \<Rightarrow> Inl err
      | Inr ks \<Rightarrow> Inr (map (replace '' (indexed)'' '''') ks))"

text \<open>The message of the \<^verbatim>\<open>EventLookupError\<close> of \<^verbatim>\<open>_EventItem.__getitem__\<close>.\<close>

definition unknown_key :: "string \<Rightarrow> string \<Rightarrow> string list \<Rightarrow> string" where
  "unknown_key key n valid_keys =
     ''Unknown key '' @ [CHR 0x27] @ key @ [CHR 0x27] @ '' - the '' @ [CHR 0x27] @ n @ [CHR 0x27]
       @ '' event includes these keys: '' @ join '', '' valid_keys"

text \<open>\<^verbatim>\<open>_EventItem.__getitem__\<close> with a string key. \<^verbatim>\<open>self._ordered[0][key]\<close> is a
  dictionary read when the first entry is a dictionary and a call of this same method
  when it is an \<^verbatim>\<open>_EventItem\<close>.\<close>

fun entry_contains :: "'v entry \<Rightarrow> string \<Rightarrow> error + bool" where
  "entry_contains (Fields d) k = Inr (dict_contains k d)"
| "entry_contains (Item e) k = contains e k"

fun getitem_str :: "'v EventItem \<Rightarrow> string \<Rightarrow> error + 'v"
and entry_getitem :: "'v entry \<Rightarrow> string \<Rightarrow> error + 'v" where
  "getitem_str (EventItem n a [] p) key = Inl IndexError"
| "getitem_str (EventItem n a (first # rest) p) key =
     (case entry_contains first key of
        Inl err \<Rightarrow> Inl err
      | Inr True \<Rightarrow> entry_getitem first key
      | Inr False \<Rightarrow>
          (case entry_contains first (key @ '' (indexed)'') of
             Inl err \<Rightarrow> Inl err
           | Inr True \<Rightarrow> entry_getitem first (key @ '' (indexed)'')
           | Inr False \<Rightarrow>
               (case keys (EventItem n a (first # rest) p) of
                  Inl err \<Rightarrow> Inl err
                | Inr valid_keys \<Rightarrow> Inl (EventLookupError (unknown_key key n valid_keys)))))"
| "entry_getitem (Fields d) key =
     (case map_of d key of None \<Rightarrow> Inl KeyError | Some v \<Rightarrow> Inr v)"
| "entry_getitem (Item e) key = getitem_str e key"

section \<open>\<^verbatim>\<open>EventDict\<close>\<close>

record 'v EventDict =
  ed_ordered :: "'v EventItem list"
  ed_dict :: "(string, 'v EventItem) dict"

text \<open>The first loop of \<^verbatim>\<open>EventDict.__init__\<close>: one \<^verbatim>\<open>_EventItem\<close> per event, at its
  position.\<close>

definition single_item :: "nat \<times> 'v event \<Rightarrow> 'v EventItem" where
  "single_item = (\<lambda>(p, i).
     EventItem (ev_name i) (Some (ev_address i))
       [Fields (OrderedDict (map (\<lambda>x. (in_name x, in_value x)) (ev_data i)))] [p])"

text \<open>The second loop: a name not yet in \<^verbatim>\<open>_dict\<close> gets the group of all the items
  of that name. \<^verbatim>\<open>i.pos[0]\<close> reads the one position of a single item.\<close>

definition group_step :: "'v EventItem list \<Rightarrow> 'v EventItem \<Rightarrow> (string, 'v EventItem) dict
    \<Rightarrow> (string, 'v EventItem) dict" where
  "group_step all_items event d =
     (if \<not> dict_contains (name event) d
      then (let events = filter (\<lambda>i. name i = name event) all_items
            in AList.update (name event)
                 (EventItem (name event) None (map Item events) (map (\<lambda>i. hd (pos i)) events)) d)
      else d)"

definition EventDict_init :: "'v event list \<Rightarrow> 'v EventDict" where
  "EventDict_init events =
     (let items = map single_item (enumerate 0 events)
      in \<lparr>ed_ordered = items, ed_dict = fold (group_step items) items []\<rparr>)"

text \<open>\<^verbatim>\<open>EventDict.__len__\<close>, \<^verbatim>\<open>count\<close> and \<^verbatim>\<open>keys\<close>.\<close>

definition ed_len :: "'v EventDict \<Rightarrow> nat" where
  "ed_len self = length (ed_ordered self)"

definition ed_count :: "'v EventDict \<Rightarrow> string \<Rightarrow> nat" where
  "ed_count self n = length (map name (filter (\<lambda>i. name i = n) (ed_ordered self)))"

definition ed_keys :: "'v EventDict \<Rightarrow> string list" where
  "ed_keys self = dict_keys (ed_dict self)"

text \<open>The field dictionary of the first firing: \<^verbatim>\<open>_ordered[0]\<close>, followed through
  the items of a group down to the dictionary. \<open>None\<close> when there is no first firing.\<close>

fun first_fields :: "'v EventItem \<Rightarrow> (string, 'v) dict option" where
  "first_fields (EventItem n a [] p) = None"
| "first_fields (EventItem n a (Fields d # rest) p) = Some d"
| "first_fields (EventItem n a (Item e # rest) p) = first_fields e"

text \<open>How many \<^verbatim>\<open>_EventItem\<close> objects lie between an item and the field dictionary of
  its first firing, the item itself included: 1 for one firing, 2 for the group of a
  name.\<close>

fun nesting :: "'v EventItem \<Rightarrow> nat" where
  "nesting (EventItem n a [] p) = 0"
| "nesting (EventItem n a (Fields d # rest) p) = 1"
| "nesting (EventItem n a (Item e # rest) p) = Suc (nesting e)"

section \<open>Topic maps\<close>

text \<open>
  An entry of a topic map, as \<^verbatim>\<open>eth_event.get_topic_map\<close> gives it: the event's name and
  its inputs, each with a name, a type and the \<^verbatim>\<open>indexed\<close> flag. A topic map is a
  dictionary from the topic (a hex string) to the entry.
\<close>

record abi_input =
  ai_name :: string
  ai_type :: string
  ai_indexed :: bool

record topic_abi =
  ta_name :: string
  ta_inputs :: "abi_input list"

type_synonym topic_map = "(string, topic_abi) dict"

text \<open>
  The module's global state: \<^verbatim>\<open>_topics\<close>, \<^verbatim>\<open>_deployment_topics\<close>, and the topic maps
  written to \<^verbatim>\<open>topics.json\<close> so far (one element per \<^verbatim>\<open>json.dump\<close>, oldest first; the
  JSON text itself is not modelled).
\<close>

record module_state =
  topics :: topic_map
  deployment_topics :: "(string, topic_map) dict"
  topics_json :: "topic_map list"

text \<open>\<^verbatim>\<open>a == b\<close> on dictionaries: the same keys with the same values, in any order.\<close>

definition dict_eq :: "('k, 'v) dict \<Rightarrow> ('k, 'v) dict \<Rightarrow> bool" where
  "dict_eq a b = (\<forall>k \<in> set (dict_keys a) \<union> set (dict_keys b). map_of a k = map_of b k)"

text \<open>\<^verbatim>\<open>d.update(other)\<close>.\<close>

definition dict_update :: "('k, 'v) dict \<Rightarrow> ('k, 'v) dict \<Rightarrow> ('k, 'v) dict" where
  "dict_update d other = fold (\<lambda>(k, v) acc. AList.update k v acc) other d"

text \<open>\<^verbatim>\<open>next((i for i in entry["inputs"] if i["indexed"]), False)\<close>: the first indexed
  input, or \<open>None\<close> for the default \<^verbatim>\<open>False\<close>. An input is a non-empty dictionary, so
  \<^verbatim>\<open>not next(...)\<close> holds exactly when the result is the default.\<close>

definition next_indexed :: "topic_abi \<Rightarrow> abi_input option" where
  "next_indexed entry = find ai_indexed (ta_inputs entry)"

text \<open>The body of the loop of \<^verbatim>\<open>_get_topics\<close> over \<^verbatim>\<open>topic_map.items()\<close>.\<close>

definition merge_step :: "string \<times> topic_abi \<Rightarrow> topic_map \<Rightarrow> topic_map" where
  "merge_step = (\<lambda>(key, value) updated_topics.
     (case map_of updated_topics key of
        None \<Rightarrow> AList.update key value updated_topics
      | Some old \<Rightarrow>
          if value = old then updated_topics
          else if next_indexed old = None then AList.update key value updated_topics
          else updated_topics))"

text \<open>\<^verbatim>\<open>_get_topics\<close>, from the topic map that \<^verbatim>\<open>eth_event.get_topic_map(abi)\<close> returned.
  It gives the new global state and the returned dictionary from event name to topic.\<close>

definition get_topics :: "module_state \<Rightarrow> topic_map \<Rightarrow> module_state \<times> (string, string) dict" where
  "get_topics st topic_map =
     (let updated_topics = fold merge_step topic_map (topics st);
          st' = (if \<not> dict_eq updated_topics (topics st)
                 then st\<lparr>topics := dict_update (topics st) updated_topics,
                         topics_json := topics_json st @ [updated_topics]\<rparr>
                 else st)
      in (st', OrderedDict (map (\<lambda>(k, v). (ta_name v, k)) topic_map)))"

text \<open>\<^verbatim>\<open>_add_deployment_topics\<close>, from the topic map of the deployment's ABI.\<close>

definition add_deployment_topics :: "module_state \<Rightarrow> string \<Rightarrow> topic_map \<Rightarrow> module_state" where
  "add_deployment_topics st addr topic_map =
     st\<lparr>deployment_topics := AList.update addr topic_map (deployment_topics st)\<rparr>"

text \<open>A dictionary has each key once.\<close>

definition wf_dict :: "('k, 'v) dict \<Rightarrow> bool" where
  "wf_dict d = distinct (dict_keys d)"

text \<open>The merge of one topic as the specification words it: what the global map holds
  for a topic that the incoming map gives the entry \<open>v\<close>, from what it held before.\<close>

definition merged :: "topic_abi option \<Rightarrow> topic_abi \<Rightarrow> topic_abi option" where
  "merged existing v =
     (case existing of
        None \<Rightarrow> Some v
      | Some old \<Rightarrow>
          if v = old then Some old
          else if \<not> (\<exists>i \<in> set (ta_inputs old). ai_indexed i) then Some v
          else Some old)"

section \<open>Raw logs and the ds-note decoder\<close>

text \<open>
  A raw log entry (web3's \<^verbatim>\<open>LogReceipt\<close>): the emitting address, the topics (byte
  strings), the data (a hex string starting with \<^verbatim>\<open>0x\<close>) and, for its place in the chain,
  the log index. The module reads the first three; the log index is what tells two
  entries with the same address, topics and data apart.
\<close>

type_synonym byte = "8 word"

record log =
  log_address :: string
  log_topics :: "byte list list"
  log_data :: string
  logIndex :: nat

text \<open>\<^verbatim>\<open>HexBytes.hex()\<close>: \<^verbatim>\<open>0x\<close> and two lower-case hex digits per byte.\<close>

definition hexdigit :: "nat \<Rightarrow> char" where
  "hexdigit n = ''0123456789abcdef'' ! (n mod 16)"

definition hex :: "byte list \<Rightarrow> string" where
  "hex bs = ''0x'' @ concat (map (\<lambda>b. [hexdigit (unat b div 16), hexdigit (unat b mod 16)]) bs)"

text \<open>\<^verbatim>\<open>bytes.fromhex\<close>: two hex digits per byte, ASCII whitespace between bytes is
  skipped, anything else raises \<^verbatim>\<open>ValueError\<close>.\<close>

definition hexval :: "char \<Rightarrow> nat option" where
  "hexval c =
     (let n = of_char c :: nat
      in if 48 \<le> n \<and> n \<le> 57 then Some (n - 48)
         else if 97 \<le> n \<and> n \<le> 102 then Some (n - 87)
         else if 65 \<le> n \<and> n \<le> 70 then Some (n - 55)
         else None)"

definition is_space :: "char \<Rightarrow> bool" where
  "is_space c = (of_char c \<in> {9, 10, 11, 12, 13, 32 :: nat})"

fun fromhex :: "string \<Rightarrow> error + byte list" where
  "fromhex [] = Inr []"
| "fromhex [c] = (if is_space c then Inr [] else Inl ValueError)"
| "fromhex (c # d # rest) =
     (if is_space c then fromhex (d # rest)
      else (case (hexval c, hexval d) of
              (Some h, Some l) \<Rightarrow>
                (case fromhex rest of
                   Inl e \<Rightarrow> Inl e
                 | Inr bs \<Rightarrow> Inr (of_nat (16 * h + l) # bs))
            | _ \<Rightarrow> Inl ValueError))"

text \<open>\<^verbatim>\<open>data.index(sub)\<close> on bytes: where \<open>sub\<close> first occurs, or \<open>None\<close> for the
  \<^verbatim>\<open>ValueError\<close>.\<close>

fun bytes_index :: "byte list \<Rightarrow> byte list \<Rightarrow> nat option" where
  "bytes_index [] sub = (if sub = [] then Some 0 else None)"
| "bytes_index (b # bs) sub =
     (if prefix sub (b # bs) then Some 0
      else map_option Suc (bytes_index bs sub))"

text \<open>
  What \<^verbatim>\<open>_decode_ds_note\<close> uses of a contract object: the dictionary \<^verbatim>\<open>selectors\<close>,
  \<^verbatim>\<open>decode_input\<close> (the function signature and the arguments, or an exception) and, for
  \<^verbatim>\<open>get_method_object(sel).abi["inputs"]\<close>, the inputs of the method of a selector
  (\<open>None\<close> when \<^verbatim>\<open>get_method_object\<close> returns \<^verbatim>\<open>None\<close>).
\<close>

record 'v contract =
  selectors :: "(string, string) dict"
  decode_input :: "byte list \<Rightarrow> error + (string \<times> 'v list)"
  get_method_inputs :: "string \<Rightarrow> abi_input list option"

text \<open>\<^verbatim>\<open>_decode_ds_note\<close>: \<open>Inr None\<close> is the plain \<^verbatim>\<open>return\<close>, \<open>Inl\<close> an exception that
  leaves the function.\<close>

definition decode_ds_note :: "log \<Rightarrow> 'v contract \<Rightarrow> error + 'v event option" where
  "decode_ds_note lg contract =
     (case log_topics lg of
        [] \<Rightarrow> Inl IndexError
      | topic0 # _ \<Rightarrow>
          (let selector = take 4 topic0; tail = drop 4 topic0
           in if \<not> dict_contains (hex selector) (selectors contract) \<or> sum_list (map unat tail) \<noteq> 0
              then Inr None
              else (case map_of (selectors contract) (hex selector) of
                      None \<Rightarrow> Inl KeyError
                    | Some nm \<Rightarrow>
                        (case fromhex (drop 2 (log_data lg)) of
                           Inl e \<Rightarrow> Inl e
                         | Inr data \<Rightarrow>
                             (case bytes_index data selector of
                                None \<Rightarrow> Inr None
                              | Some k \<Rightarrow>
                                  (case decode_input contract (drop k data) of
                                     Inl ValueError \<Rightarrow> Inr None
                                   | Inl e \<Rightarrow> Inl e
                                   | Inr (func, args) \<Rightarrow>
                                       (case get_method_inputs contract (hex selector) of
                                          None \<Rightarrow> Inl (OtherError ''AttributeError'')
                                        | Some inputs \<Rightarrow>
                                            Inr (Some \<lparr>ev_name = nm, ev_address = log_address lg,
                                              ev_decoded = True,
                                              ev_data = map (\<lambda>(arg, abi).
                                                  \<lparr>in_name = ai_name abi, in_type = ai_type abi,
                                                   in_value = arg, in_decoded = True\<rparr>)
                                                (zip args inputs)\<rparr>))))))))"

section \<open>\<^verbatim>\<open>_decode_logs\<close>\<close>

text \<open>\<^verbatim>\<open>_deployment_topics.get(address, _topics)\<close>.\<close>

definition topics_for :: "module_state \<Rightarrow> string \<Rightarrow> topic_map" where
  "topics_for st addr =
     (case map_of (deployment_topics st) addr of Some m \<Rightarrow> m | None \<Rightarrow> topics st)"

text \<open>The first lines of the body of the \<^verbatim>\<open>for\<close> loop: the ds-note decoder is tried when
  \<^verbatim>\<open>contracts\<close> is given and not empty and holds a contract for the entry's address; an
  address that is not a key raises \<^verbatim>\<open>KeyError\<close>.\<close>

definition try_ds_note :: "(string, 'v contract option) dict option \<Rightarrow> log \<Rightarrow> error + 'v event option" where
  "try_ds_note contracts item =
     (case contracts of
        None \<Rightarrow> Inr None
      | Some [] \<Rightarrow> Inr None
      | Some cs \<Rightarrow>
          (case map_of cs (log_address item) of
             None \<Rightarrow> Inl KeyError
           | Some None \<Rightarrow> Inr None
           | Some (Some c) \<Rightarrow> decode_ds_note item c))"

text \<open>
  The \<^verbatim>\<open>for\<close> loop over a slice, with the events and the warnings so far. \<open>dec\<close> is
  \<^verbatim>\<open>eth_event.decode_logs\<close> (the entries, the topic map, \<^verbatim>\<open>allow_undecoded\<close>); its
  \<^verbatim>\<open>EventError\<close> becomes a warning, any other exception leaves the function.
\<close>

fun decode_slice :: "(log list \<Rightarrow> topic_map \<Rightarrow> bool \<Rightarrow> error + 'v event list)
    \<Rightarrow> (string, 'v contract option) dict option \<Rightarrow> topic_map \<Rightarrow> string \<Rightarrow> log list
    \<Rightarrow> 'v event list \<times> string list \<Rightarrow> ('v event list \<times> string list) \<times> error option" where
  "decode_slice dec contracts topics_map addr [] acc = (acc, None)"
| "decode_slice dec contracts topics_map addr (item # rest) (events, warns) =
     (case try_ds_note contracts item of
        Inl e \<Rightarrow> ((events, warns), Some e)
      | Inr (Some note) \<Rightarrow> decode_slice dec contracts topics_map addr rest (events @ [note], warns)
      | Inr None \<Rightarrow>
          (case dec [item] topics_map True of
             Inr evs \<Rightarrow> decode_slice dec contracts topics_map addr rest (events @ evs, warns)
           | Inl (EventError exc) \<Rightarrow>
               decode_slice dec contracts topics_map addr rest (events, warns @ [addr @ '': '' @ exc])
           | Inl e \<Rightarrow> ((events, warns), Some e)))"

text \<open>\<^verbatim>\<open>logs.index(x)\<close>: the first position of an element equal to \<open>x\<close>.\<close>

fun list_index :: "'a list \<Rightarrow> 'a \<Rightarrow> nat option" where
  "list_index [] x = None"
| "list_index (y # ys) x = (if y = x then Some 0 else map_option Suc (list_index ys x))"

text \<open>The slice \<^verbatim>\<open>xs[i:j]\<close> for indices that are not negative.\<close>

definition list_slice :: "'a list \<Rightarrow> nat \<Rightarrow> nat \<Rightarrow> 'a list" where
  "list_slice xs i j = take (j - i) (drop i xs)"

text \<open>
  The head of the \<^verbatim>\<open>while\<close> loop: the address at \<open>idx\<close>, the slice up to the position
  that \<^verbatim>\<open>logs.index\<close> gives for the first later entry of another address, and the new
  \<open>idx\<close>; without such an entry (\<^verbatim>\<open>StopIteration\<close>) the slice is the rest and \<open>idx\<close> stays.
\<close>

definition next_slice :: "log list \<Rightarrow> nat \<Rightarrow> error + (string \<times> log list \<times> nat)" where
  "next_slice logs idx =
     (if idx < length logs
      then (let addr = log_address (logs ! idx)
            in case find (\<lambda>i. log_address i \<noteq> addr) (drop idx logs) of
                 Some x \<Rightarrow>
                   (case list_index logs x of
                      None \<Rightarrow> Inl ValueError
                    | Some new_idx \<Rightarrow> Inr (addr, list_slice logs idx new_idx, new_idx))
               | None \<Rightarrow> Inr (addr, drop idx logs, idx))
      else Inl IndexError)"

lemma next_slice_advances:
  assumes "next_slice logs idx = Inr (addr, log_slice, new_idx)"
      and "log_slice \<noteq> []" and "last log_slice \<noteq> last logs"
  shows "idx < new_idx \<and> idx < length logs"
proof -
  from assms(1) have lt: "idx < length logs"
    by (auto simp: next_slice_def split: if_splits)
  show ?thesis
  proof (cases "find (\<lambda>i. log_address i \<noteq> log_address (logs ! idx)) (drop idx logs)")
    case None
    with assms(1) lt have "log_slice = drop idx logs"
      by (auto simp: next_slice_def)
    with lt assms(3) show ?thesis by simp
  next
    case (Some x)
    with assms(1) lt have "log_slice = list_slice logs idx new_idx"
      by (auto simp: next_slice_def split: option.splits)
    with assms(2) have "idx < new_idx"
      by (cases "idx < new_idx") (simp_all add: list_slice_def)
    with lt show ?thesis by simp
  qed
qed

text \<open>The \<^verbatim>\<open>while True\<close> loop of \<^verbatim>\<open>_decode_logs\<close>. \<^verbatim>\<open>log_slice[-1]\<close> raises
  \<^verbatim>\<open>IndexError\<close> on an empty slice.\<close>

function decode_loop :: "(log list \<Rightarrow> topic_map \<Rightarrow> bool \<Rightarrow> error + 'v event list)
    \<Rightarrow> module_state \<Rightarrow> (string, 'v contract option) dict option \<Rightarrow> log list \<Rightarrow> nat
    \<Rightarrow> 'v event list \<times> string list \<Rightarrow> ('v event list \<times> string list) \<times> error option" where
  "decode_loop dec st contracts logs idx acc =
     (case next_slice logs idx of
        Inl e \<Rightarrow> (acc, Some e)
      | Inr (addr, log_slice, new_idx) \<Rightarrow>
          (case decode_slice dec contracts (topics_for st addr) addr log_slice acc of
             (acc', Some e) \<Rightarrow> (acc', Some e)
           | (acc', None) \<Rightarrow>
               if log_slice = [] then (acc', Some IndexError)
               else if last log_slice = last logs then (acc', None)
               else decode_loop dec st contracts logs new_idx acc'))"
  by pat_completeness auto
termination
proof (relation "measure (\<lambda>(dec, st, contracts, logs, idx, acc). length logs - idx)")
  show "wf (measure (\<lambda>(dec, st, contracts, logs, idx, acc). length logs - idx))" by simp
next
  fix dec :: "log list \<Rightarrow> topic_map \<Rightarrow> bool \<Rightarrow> error + 'v event list"
    and st contracts logs idx acc x2 addr y log_slice new_idx x acc' err
  assume "next_slice logs idx = Inr x2" "(addr, y) = x2" "(log_slice, new_idx) = y"
     "log_slice \<noteq> []" "last log_slice \<noteq> last logs"
  then have "idx < new_idx \<and> idx < length logs"
    using next_slice_advances[of logs idx addr log_slice new_idx] by simp
  then show "((dec, st, contracts, logs, new_idx, acc'), (dec, st, contracts, logs, idx, acc))
      \<in> measure (\<lambda>(dec, st, contracts, logs, idx, acc). length logs - idx)"
    by (simp add: diff_less_mono2)
qed

declare decode_loop.simps [simp del]

text \<open>\<^verbatim>\<open>_decode_logs\<close>: the warnings it emits, and the exception that leaves it or the
  \<^verbatim>\<open>EventDict\<close> it returns. \<open>fmt\<close> is \<^verbatim>\<open>format_event\<close>.\<close>

definition decode_logs :: "(log list \<Rightarrow> topic_map \<Rightarrow> bool \<Rightarrow> error + 'v event list)
    \<Rightarrow> ('v event \<Rightarrow> 'v event) \<Rightarrow> module_state \<Rightarrow> log list
    \<Rightarrow> (string, 'v contract option) dict option \<Rightarrow> string list \<times> (error + 'v EventDict)" where
  "decode_logs dec fmt st logs contracts =
     (if logs = [] then ([], Inr (EventDict_init []))
      else (case decode_loop dec st contracts logs 0 ([], []) of
              ((events, warns), Some e) \<Rightarrow> (warns, Inl e)
            | ((events, warns), None) \<Rightarrow> (warns, Inr (EventDict_init (map fmt events)))))"

text \<open>
  The decoding as the specification words it: every entry is decoded once, in the order
  of the input, against the topic map of its own address.
\<close>

fun decode_in_order :: "(log list \<Rightarrow> topic_map \<Rightarrow> bool \<Rightarrow> error + 'v event list)
    \<Rightarrow> module_state \<Rightarrow> (string, 'v contract option) dict option \<Rightarrow> log list
    \<Rightarrow> 'v event list \<times> string list \<Rightarrow> ('v event list \<times> string list) \<times> error option" where
  "decode_in_order dec st contracts [] acc = (acc, None)"
| "decode_in_order dec st contracts (item # rest) acc =
     (case decode_slice dec contracts (topics_for st (log_address item)) (log_address item) [item] acc of
        (acc', Some e) \<Rightarrow> (acc', Some e)
      | (acc', None) \<Rightarrow> decode_in_order dec st contracts rest acc')"

text \<open>
  What one entry contributes, written from the body of the \<^verbatim>\<open>for\<close> loop for that entry
  alone: the events it adds and the warnings it emits, or the exception it raises. The
  topic map is the one of the entry's own address.
\<close>

definition decode_item :: "(log list \<Rightarrow> topic_map \<Rightarrow> bool \<Rightarrow> error + 'v event list)
    \<Rightarrow> module_state \<Rightarrow> (string, 'v contract option) dict option \<Rightarrow> log
    \<Rightarrow> error + ('v event list \<times> string list)" where
  "decode_item dec st contracts item =
     (case try_ds_note contracts item of
        Inl e \<Rightarrow> Inl e
      | Inr (Some note) \<Rightarrow> Inr ([note], [])
      | Inr None \<Rightarrow>
          (case dec [item] (topics_for st (log_address item)) True of
             Inr evs \<Rightarrow> Inr (evs, [])
           | Inl (EventError exc) \<Rightarrow> Inr ([], [log_address item @ '': '' @ exc])
           | Inl e \<Rightarrow> Inl e))"

definition item_events :: "(log list \<Rightarrow> topic_map \<Rightarrow> bool \<Rightarrow> error + 'v event list)
    \<Rightarrow> module_state \<Rightarrow> (string, 'v contract option) dict option \<Rightarrow> log \<Rightarrow> 'v event list" where
  "item_events dec st contracts item =
     (case decode_item dec st contracts item of Inl e \<Rightarrow> [] | Inr (evs, ws) \<Rightarrow> evs)"

definition item_warnings :: "(log list \<Rightarrow> topic_map \<Rightarrow> bool \<Rightarrow> error + 'v event list)
    \<Rightarrow> module_state \<Rightarrow> (string, 'v contract option) dict option \<Rightarrow> log \<Rightarrow> string list" where
  "item_warnings dec st contracts item =
     (case decode_item dec st contracts item of Inl e \<Rightarrow> [] | Inr (evs, ws) \<Rightarrow> ws)"

definition item_raises :: "(log list \<Rightarrow> topic_map \<Rightarrow> bool \<Rightarrow> error + 'v event list)
    \<Rightarrow> module_state \<Rightarrow> (string, 'v contract option) dict option \<Rightarrow> log \<Rightarrow> error option" where
  "item_raises dec st contracts item =
     (case decode_item dec st contracts item of Inl e \<Rightarrow> Some e | Inr r \<Rightarrow> None)"

fun first_error :: "(log list \<Rightarrow> topic_map \<Rightarrow> bool \<Rightarrow> error + 'v event list)
    \<Rightarrow> module_state \<Rightarrow> (string, 'v contract option) dict option \<Rightarrow> log list \<Rightarrow> error option" where
  "first_error dec st contracts [] = None"
| "first_error dec st contracts (item # rest) =
     (case item_raises dec st contracts item of
        Some e \<Rightarrow> Some e
      | None \<Rightarrow> first_error dec st contracts rest)"


section \<open>\<^verbatim>\<open>EventWatchData\<close> and \<^verbatim>\<open>EventWatcher\<close>\<close>

text \<open>
  A subscription. Times and delays are real numbers (the rounding of Python's floats is
  not modelled). The log filter is given by the results of its future
  \<^verbatim>\<open>get_new_entries()\<close> calls, oldest first, each a batch of entries or an exception of
  the node connection; a filter with nothing left returns no entries. The callback is an
  opaque value \<open>'cb\<close>; its invocations are recorded in the watcher.
\<close>

record ('cb, 'log) EventWatchData =
  callback :: 'cb
  delay :: real
  repeat :: bool
  event_filter :: "(error + 'log list) list"
  stored_cooldown_time_over :: bool
  last_trigger_time :: real

text \<open>A \<^verbatim>\<open>threading.Thread\<close>: created, started, or finished.\<close>

datatype thread_state = Initial | Started | Stopped

text \<open>
  The watcher. Subscriptions are objects shared between the active list and the bound
  methods in the queue, so they live in a store \<open>objs\<close> and are referred to by their
  index there: \<open>target_events_watch_data\<close> is the list of the active ones, and a task in
  \<open>queue\<close> is the subscription whose \<^verbatim>\<open>_trigger_callback\<close> it holds, with the batch.
  \<open>ticks\<close> counts the calls of \<^verbatim>\<open>time.time()\<close> so far, \<open>calls\<close> records the callback
  invocations in order. The lock is not modelled: each function below is one thread's
  step run while it holds the lock where the source takes it.
\<close>

record ('cb, 'log) EventWatcher =
  objs :: "('cb, 'log) EventWatchData list"
  target_events_watch_data :: "nat list"
  queue :: "(nat \<times> 'log list) list"
  kill :: bool
  has_started :: bool
  watcher_thread :: thread_state
  callback_thread :: thread_state
  ticks :: nat
  calls :: "('cb \<times> 'log) list"

text \<open>\<^verbatim>\<open>time.time()\<close>: the clock \<open>clk\<close> gives the reading of each successive call.\<close>

definition time_time :: "(nat \<Rightarrow> real) \<Rightarrow> ('cb, 'log) EventWatcher \<Rightarrow> real \<times> ('cb, 'log) EventWatcher" where
  "time_time clk w = (clk (ticks w), w\<lparr>ticks := Suc (ticks w)\<rparr>)"

text \<open>An assignment to fields of the subscription \<open>i\<close>.\<close>

definition update_obj :: "nat \<Rightarrow> (('cb, 'log) EventWatchData \<Rightarrow> ('cb, 'log) EventWatchData)
    \<Rightarrow> ('cb, 'log) EventWatcher \<Rightarrow> ('cb, 'log) EventWatcher" where
  "update_obj i f w = w\<lparr>objs := (objs w)[i := f (objs w ! i)]\<rparr>"

text \<open>The getter of the property \<^verbatim>\<open>cooldown_time_over\<close>: it sets the stored flag when
  the delay has passed since the last trigger, and returns the stored flag.\<close>

definition cd_time_over_getter :: "(nat \<Rightarrow> real) \<Rightarrow> ('cb, 'log) EventWatcher \<Rightarrow> nat
    \<Rightarrow> bool \<times> ('cb, 'log) EventWatcher" where
  "cd_time_over_getter clk w i =
     (let (current_time, w1) = time_time clk w;
          timer_value = current_time - last_trigger_time (objs w1 ! i);
          w2 = (if timer_value \<ge> delay (objs w1 ! i)
                then update_obj i (\<lambda>e. e\<lparr>stored_cooldown_time_over := True\<rparr>) w1
                else w1)
      in (stored_cooldown_time_over (objs w2 ! i), w2))"

text \<open>The setter of the property.\<close>

definition cd_time_over_setter :: "('cb, 'log) EventWatcher \<Rightarrow> nat \<Rightarrow> bool \<Rightarrow> ('cb, 'log) EventWatcher" where
  "cd_time_over_setter w i v = update_obj i (\<lambda>e. e\<lparr>stored_cooldown_time_over := v\<rparr>) w"

text \<open>\<^verbatim>\<open>EventWatchData.check_timer\<close>: the time left on the watch.\<close>

definition check_timer :: "(nat \<Rightarrow> real) \<Rightarrow> ('cb, 'log) EventWatcher \<Rightarrow> nat
    \<Rightarrow> real \<times> ('cb, 'log) EventWatcher" where
  "check_timer clk w i =
     (let (current_time, w1) = time_time clk w;
          time_since_last_trigger = current_time - last_trigger_time (objs w1 ! i);
          w2 = (if time_since_last_trigger \<ge> delay (objs w1 ! i)
                then cd_time_over_setter w1 i True
                else w1)
      in (delay (objs w2 ! i) - time_since_last_trigger, w2))"

text \<open>\<^verbatim>\<open>EventWatchData.get_new_events\<close>: the next result of the filter.\<close>

definition get_new_events :: "('cb, 'log) EventWatcher \<Rightarrow> nat
    \<Rightarrow> (error + 'log list) \<times> ('cb, 'log) EventWatcher" where
  "get_new_events w i =
     (case event_filter (objs w ! i) of
        [] \<Rightarrow> (Inr [], w)
      | r # rest \<Rightarrow> (r, update_obj i (\<lambda>e. e\<lparr>event_filter := rest\<rparr>) w))"

text \<open>\<^verbatim>\<open>EventWatchData._update_trigger_time\<close> and \<^verbatim>\<open>_trigger_callback\<close>.\<close>

definition update_trigger_time :: "(nat \<Rightarrow> real) \<Rightarrow> ('cb, 'log) EventWatcher \<Rightarrow> nat
    \<Rightarrow> ('cb, 'log) EventWatcher" where
  "update_trigger_time clk w i =
     (let (t, w1) = time_time clk w
      in update_obj i (\<lambda>e. e\<lparr>last_trigger_time := t\<rparr>) w1)"

definition trigger_callback :: "(nat \<Rightarrow> real) \<Rightarrow> ('cb, 'log) EventWatcher \<Rightarrow> nat \<Rightarrow> 'log list
    \<Rightarrow> ('cb, 'log) EventWatcher" where
  "trigger_callback clk w i events_data =
     (let w1 = cd_time_over_setter w i False;
          w2 = update_trigger_time clk w1 i
      in fold (\<lambda>data w'. w'\<lparr>calls := calls w' @ [(callback (objs w' ! i), data)]\<rparr>) events_data w2)"

text \<open>\<^verbatim>\<open>EventWatchData.__init__\<close>, with the filter that \<^verbatim>\<open>event.createFilter\<close> returned: the
  new object is put in the store and its index is returned.\<close>

definition EventWatchData_init :: "(nat \<Rightarrow> real) \<Rightarrow> ('cb, 'log) EventWatcher \<Rightarrow> 'cb \<Rightarrow> real \<Rightarrow> bool
    \<Rightarrow> (error + 'log list) list \<Rightarrow> nat \<times> ('cb, 'log) EventWatcher" where
  "EventWatchData_init clk w cb d r flt =
     (let i = length (objs w);
          w1 = w\<lparr>objs := objs w @ [\<lparr>callback = cb, delay = d, repeat = r, event_filter = flt,
                  stored_cooldown_time_over = False, last_trigger_time = 0\<rparr>]\<rparr>
      in (i, update_trigger_time clk w1 i))"

text \<open>\<^verbatim>\<open>EventWatcher.__init__\<close>.\<close>

definition EventWatcher_init :: "('cb, 'log) EventWatcher" where
  "EventWatcher_init =
     \<lparr>objs = [], target_events_watch_data = [], queue = [], kill = False, has_started = False,
      watcher_thread = Initial, callback_thread = Initial, ticks = 0, calls = []\<rparr>"

text \<open>\<^verbatim>\<open>Thread.join()\<close> raises \<^verbatim>\<open>RuntimeError\<close> on a thread that was not started; on a
  started thread it returns once the thread has finished. \<^verbatim>\<open>Thread.start()\<close> raises
  \<^verbatim>\<open>RuntimeError\<close> on a thread that was started before.\<close>

definition thread_join :: "thread_state \<Rightarrow> error + thread_state" where
  "thread_join t = (case t of Initial \<Rightarrow> Inl RuntimeError | _ \<Rightarrow> Inr Stopped)"

definition thread_start :: "thread_state \<Rightarrow> error + thread_state" where
  "thread_start t = (case t of Initial \<Rightarrow> Inr Started | _ \<Rightarrow> Inl RuntimeError)"

text \<open>\<^verbatim>\<open>EventWatcher.stop\<close>: the state after the call, and the exception it raised if
  any.\<close>

definition stop :: "('cb, 'log) EventWatcher \<Rightarrow> bool \<Rightarrow> ('cb, 'log) EventWatcher \<times> error option" where
  "stop w wait =
     (let w1 = w\<lparr>kill := True\<rparr>
      in if wait
         then (case thread_join (watcher_thread w1) of
                 Inl e \<Rightarrow> (w1, Some e)
               | Inr t1 \<Rightarrow>
                   (let w2 = w1\<lparr>watcher_thread := t1\<rparr>
                    in case thread_join (callback_thread w2) of
                         Inl e \<Rightarrow> (w2, Some e)
                       | Inr t2 \<Rightarrow> (w2\<lparr>callback_thread := t2\<rparr>, None)))
         else (w1, None))"

text \<open>\<^verbatim>\<open>EventWatcher._start_threads\<close>.\<close>

definition start_threads :: "('cb, 'log) EventWatcher \<Rightarrow> ('cb, 'log) EventWatcher \<times> error option" where
  "start_threads w =
     (case thread_start (watcher_thread w) of
        Inl e \<Rightarrow> (w, Some e)
      | Inr t1 \<Rightarrow>
          (let w1 = w\<lparr>watcher_thread := t1\<rparr>
           in case thread_start (callback_thread w1) of
                Inl e \<Rightarrow> (w1, Some e)
              | Inr t2 \<Rightarrow> (w1\<lparr>callback_thread := t2, has_started := True\<rparr>, None)))"

text \<open>\<^verbatim>\<open>EventWatcher._add_event_callback\<close> (the callback is callable by its type) and
  \<^verbatim>\<open>add_event_callback\<close>.\<close>

definition add_event_callback' :: "(nat \<Rightarrow> real) \<Rightarrow> ('cb, 'log) EventWatcher \<Rightarrow> 'cb \<Rightarrow> real \<Rightarrow> bool
    \<Rightarrow> (error + 'log list) list \<Rightarrow> ('cb, 'log) EventWatcher" where
  "add_event_callback' clk w cb d r flt =
     (let d' = max d 0.05;
          (i, w1) = EventWatchData_init clk w cb d' r flt
      in w1\<lparr>target_events_watch_data := target_events_watch_data w1 @ [i]\<rparr>)"

definition add_event_callback :: "(nat \<Rightarrow> real) \<Rightarrow> ('cb, 'log) EventWatcher \<Rightarrow> 'cb \<Rightarrow> real \<Rightarrow> bool
    \<Rightarrow> (error + 'log list) list \<Rightarrow> ('cb, 'log) EventWatcher \<times> error option" where
  "add_event_callback clk w cb d r flt =
     (if has_started w = False
      then (case start_threads w of
              (w1, Some e) \<Rightarrow> (w1, Some e)
            | (w1, None) \<Rightarrow> (add_event_callback' clk w1 cb d r flt, None))
      else (add_event_callback' clk w cb d r flt, None))"

text \<open>
  The \<^verbatim>\<open>for\<close> loop of \<^verbatim>\<open>_watch_loop\<close> over the active subscriptions, with the sleep time
  so far. An exception of the filter ends the loop.
\<close>

fun watch_elems :: "(nat \<Rightarrow> real) \<Rightarrow> nat list \<Rightarrow> ('cb, 'log) EventWatcher \<times> real
    \<Rightarrow> (('cb, 'log) EventWatcher \<times> real) \<times> error option" where
  "watch_elems clk [] (w, sleep_time) = ((w, sleep_time), None)"
| "watch_elems clk (elem # rest) (w, sleep_time) =
     (let (over, w1) = cd_time_over_getter clk w elem
      in if over = False
         then (let (left, w2) = check_timer clk w1 elem
               in watch_elems clk rest (w2, min sleep_time left))
         else (case get_new_events w1 elem of
                 (Inl e, w2) \<Rightarrow> ((w2, sleep_time), Some e)
               | (Inr latest_events, w2) \<Rightarrow>
                   (let w3 = (if length latest_events \<noteq> 0
                              then w2\<lparr>queue := queue w2 @ [(elem, latest_events)]\<rparr>
                              else w2)
                    in watch_elems clk rest (w3, min sleep_time (delay (objs w3 ! elem))))))"

text \<open>
  One pass of the \<^verbatim>\<open>while\<close> loop of \<^verbatim>\<open>_watch_loop\<close>: the \<^verbatim>\<open>try\<close> block, then the
  \<^verbatim>\<open>finally\<close> block that keeps the repeating subscriptions only. It gives the state
  after the pass, the time the thread then sleeps, and the exception that leaves the
  loop if there was one.
\<close>

definition watch_pass :: "(nat \<Rightarrow> real) \<Rightarrow> ('cb, 'log) EventWatcher
    \<Rightarrow> ('cb, 'log) EventWatcher \<times> real \<times> error option" where
  "watch_pass clk w =
     (let ((w1, sleep_time), err) = watch_elems clk (target_events_watch_data w) (w, 2.0);
          w2 = w1\<lparr>target_events_watch_data :=
                    filter (\<lambda>x. repeat (objs w1 ! x)) (target_events_watch_data w1)\<rparr>
      in (w2, sleep_time, err))"

text \<open>One pass of the \<^verbatim>\<open>while\<close> loop of \<^verbatim>\<open>_execute_callbacks\<close>: the queued tasks are
  taken and run one after the other.\<close>

definition execute_callbacks_pass :: "(nat \<Rightarrow> real) \<Rightarrow> ('cb, 'log) EventWatcher
    \<Rightarrow> ('cb, 'log) EventWatcher" where
  "execute_callbacks_pass clk w =
     fold (\<lambda>(i, events_data) w'. trigger_callback clk (w'\<lparr>queue := tl (queue w')\<rparr>) i events_data)
       (queue w) w"

text \<open>What a step of the poll loop may do to the watcher: the active list, the last
  trigger times, the delays and the repeat flags stay, and a stored cooldown flag that is
  set stays set.\<close>

definition keeps_cooldown :: "('cb, 'log) EventWatcher \<Rightarrow> ('cb, 'log) EventWatcher \<Rightarrow> bool" where
  "keeps_cooldown w w' =
     (target_events_watch_data w' = target_events_watch_data w \<and>
      length (objs w') = length (objs w) \<and>
      (\<forall>j. last_trigger_time (objs w' ! j) = last_trigger_time (objs w ! j) \<and>
           repeat (objs w' ! j) = repeat (objs w ! j) \<and>
           delay (objs w' ! j) = delay (objs w ! j) \<and>
           (stored_cooldown_time_over (objs w ! j) \<longrightarrow> stored_cooldown_time_over (objs w' ! j))))"

section \<open>Properties of \<^verbatim>\<open>EventDict\<close>\<close>

lemma group_step_keys:
  "dict_keys (group_step all_items event d) =
     (if name event \<in> set (dict_keys d) then dict_keys d else dict_keys d @ [name event])"
  by (induction d) (auto simp: group_step_def dict_keys_def dict_contains_def Let_def)

lemma fold_group_step_distinct:
  "distinct (dict_keys d) \<Longrightarrow> distinct (dict_keys (fold (group_step all_items) xs d))"
  by (induction xs arbitrary: d) (auto simp: group_step_keys)

lemma fold_group_step_set:
  "set (dict_keys (fold (group_step all_items) xs d)) = set (dict_keys d) \<union> name ` set xs"
  by (induction xs arbitrary: d) (auto simp: group_step_keys)

lemma count_list_names:
  "count_list (map f xs) k = length (filter (\<lambda>i. f i = k) xs)"
  by (induction xs) auto

lemma sum_count_names:
  assumes "distinct ks" and "name ` set xs \<subseteq> set ks"
  shows "sum_list (map (\<lambda>k. length (filter (\<lambda>i. name i = k) xs)) ks) = length xs"
proof -
  have "sum_list (map (\<lambda>k. length (filter (\<lambda>i. name i = k) xs)) ks)
      = sum_list (map (count_list (map name xs)) ks)"
    by (rule arg_cong[where f = sum_list]) (simp add: count_list_names)
  also have "\<dots> = sum (count_list (map name xs)) (set ks)"
    using assms(1) by (simp add: sum_list_distinct_conv_sum_set)
  also have "\<dots> = length (map name xs)"
    using assms(2) by (intro sum_count_set) auto
  finally show ?thesis by simp
qed

text \<open>
  Claim C2. For the \<^verbatim>\<open>EventDict\<close> built from any list of decoded events, adding up
  \<^verbatim>\<open>count(name)\<close> over the names of \<^verbatim>\<open>keys()\<close> gives \<^verbatim>\<open>len\<close> of the \<^verbatim>\<open>EventDict\<close>: the
  keys are the distinct names of the fired events, so the groups partition the ordered
  sequence.
\<close>

theorem grouping_invariant:
  "sum_list (map (ed_count (EventDict_init events)) (ed_keys (EventDict_init events)))
     = ed_len (EventDict_init events)"
proof -
  define items where "items = map single_item (enumerate 0 events)"
  define d where "d = fold (group_step items) items []"
  have 1: "distinct (dict_keys d)"
    unfolding d_def by (rule fold_group_step_distinct) (simp add: dict_keys_def)
  have 2: "name ` set items \<subseteq> set (dict_keys d)"
    unfolding d_def by (simp add: fold_group_step_set)
  have "sum_list (map (\<lambda>k. length (filter (\<lambda>i. name i = k) items)) (dict_keys d)) = length items"
    using 1 2 by (rule sum_count_names)
  moreover have "EventDict_init events = \<lparr>ed_ordered = items, ed_dict = d\<rparr>"
    by (simp add: EventDict_init_def Let_def items_def d_def)
  moreover have "ed_count \<lparr>ed_ordered = items, ed_dict = d\<rparr>
      = (\<lambda>k. length (filter (\<lambda>i. name i = k) items))"
    by (rule ext) (simp add: ed_count_def)
  ultimately show ?thesis
    by (simp add: ed_keys_def ed_len_def)
qed

section \<open>Properties of \<^verbatim>\<open>_EventItem\<close>\<close>

lemma contains_first_fields:
  "first_fields g = Some d \<Longrightarrow> contains g k = Inr (dict_contains k d)"
  by (induction g rule: first_fields.induct) auto

lemma keys_first_fields:
  "first_fields g = Some d \<Longrightarrow> \<exists>ks. keys g = Inr ks"
  by (induction g rule: first_fields.induct) auto

lemma dict_contains_map_of:
  "dict_contains k d \<longleftrightarrow> map_of d k \<noteq> None"
  by (simp add: dict_contains_def dict_keys_def map_of_eq_None_iff)

lemma getitem_str_first_fields:
  assumes "first_fields g = Some d" and "keys g = Inr ks"
  shows "getitem_str g k =
     (case map_of d k of
        Some v \<Rightarrow> Inr v
      | None \<Rightarrow>
          (case map_of d (k @ '' (indexed)'') of
             Some v \<Rightarrow> Inr v
           | None \<Rightarrow> Inl (EventLookupError (unknown_key k (name g) ks))))"
  using assms
proof (induction g arbitrary: k ks rule: first_fields.induct)
  case (1 n a p)
  then show ?case by simp
next
  case (2 n a d' rest p)
  then show ?case
    by (auto simp: dict_contains_map_of split: option.splits)
next
  case (3 n a e rest p)
  from 3(3) obtain ks' where ks': "keys e = Inr ks'"
    by (auto split: sum.splits)
  from 3(2) have ff: "first_fields e = Some d" by simp
  note ih = 3(1)[OF ff ks']
  show ?case
    using 3(3) ks' ff ih[of k] ih[of "k @ '' (indexed)''"]
    by (auto simp: dict_contains_map_of contains_first_fields split: option.splits)
qed

lemma keys_nesting:
  "first_fields g = Some d \<Longrightarrow>
   keys g = Inr (map ((replace '' (indexed)'' '''') ^^ nesting g) (dict_keys d))"
  by (induction g rule: first_fields.induct) simp_all

text \<open>
  Claim C4. For a group with a first firing \<open>d\<close> and a string key \<open>k\<close>, \<^verbatim>\<open>group[k]\<close> is the
  value of field \<open>k\<close> of the first firing; when \<open>k\<close> is absent there, it is the value of the
  field named \<open>k\<close> followed by \<^verbatim>\<open>" (indexed)"\<close> when that one is present; when neither is
  there, it raises \<^verbatim>\<open>EventLookupError\<close> (a \<^verbatim>\<open>LookupError\<close>) whose message gives the key,
  the event name and, joined by commas, the field names of the first firing in their
  order, each without its \<^verbatim>\<open>" (indexed)"\<close> mark: the list that \<^verbatim>\<open>keys()\<close> returns for the
  group (the mark is removed once by each \<^verbatim>\<open>keys()\<close> on the way to the dictionary).
\<close>

theorem getitem_str_lookup:
  assumes "first_fields g = Some d"
  shows "keys g = Inr (map ((replace '' (indexed)'' '''') ^^ nesting g) (dict_keys d)) \<and>
     getitem_str g k =
       (case map_of d k of
          Some v \<Rightarrow> Inr v
        | None \<Rightarrow>
            (case map_of d (k @ '' (indexed)'') of
               Some v \<Rightarrow> Inr v
             | None \<Rightarrow>
                 Inl (EventLookupError
                   (''Unknown key '' @ [CHR 0x27] @ k @ [CHR 0x27] @ '' - the '' @ [CHR 0x27]
                      @ name g @ [CHR 0x27] @ '' event includes these keys: ''
                      @ join '', ''
                          (map ((replace '' (indexed)'' '''') ^^ nesting g) (dict_keys d))))))"
  using keys_nesting[OF assms] getitem_str_first_fields[OF assms keys_nesting[OF assms], of k]
  by (simp add: unknown_key_def split: option.splits)

theorem getitem_str_lookup_witness:
  "getitem_str
     (EventItem ''Transfer'' None
        [Item (EventItem ''Transfer'' (Some ''0xA1'')
           [Fields [(''from (indexed)'', 7), (''value'', 100 :: nat)]] [0])] [0])
     ''from'' = Inr 7
   \<and> getitem_str
     (EventItem ''Transfer'' None
        [Item (EventItem ''Transfer'' (Some ''0xA1'')
           [Fields [(''from (indexed)'', 7), (''value'', 100 :: nat)]] [0])] [0])
     ''to'' = Inl (EventLookupError
        (''Unknown key '' @ [CHR 0x27] @ ''to'' @ [CHR 0x27] @ '' - the '' @ [CHR 0x27]
           @ ''Transfer'' @ [CHR 0x27] @ '' event includes these keys: from, value''))"
  using getitem_str_lookup[of
     "EventItem ''Transfer'' None
        [Item (EventItem ''Transfer'' (Some ''0xA1'')
           [Fields [(''from (indexed)'', 7), (''value'', 100 :: nat)]] [0])] [0]"
     "[(''from (indexed)'', 7), (''value'', 100 :: nat)]" "''from''"]
    getitem_str_lookup[of
     "EventItem ''Transfer'' None
        [Item (EventItem ''Transfer'' (Some ''0xA1'')
           [Fields [(''from (indexed)'', 7), (''value'', 100 :: nat)]] [0])] [0]"
     "[(''from (indexed)'', 7), (''value'', 100 :: nat)]" "''to''"]
  by (simp add: dict_keys_def)

section \<open>Properties of the topic-map merge\<close>

lemma dict_eq_map_of: "dict_eq a b \<longleftrightarrow> map_of a = map_of b"
proof
  assume h: "dict_eq a b"
  show "map_of a = map_of b"
  proof
    fix k
    show "map_of a k = map_of b k"
    proof (cases "k \<in> set (dict_keys a) \<union> set (dict_keys b)")
      case True
      with h show ?thesis by (simp add: dict_eq_def)
    next
      case False
      then have "map_of a k = None" "map_of b k = None"
        by (simp_all add: dict_keys_def map_of_eq_None_iff)
      then show ?thesis by simp
    qed
  qed
next
  assume "map_of a = map_of b"
  then show "dict_eq a b" by (simp add: dict_eq_def)
qed

lemma map_of_dict_update:
  "wf_dict other \<Longrightarrow> map_of (dict_update d other) = map_of d ++ map_of other"
proof (induction other arbitrary: d)
  case Nil
  then show ?case by (simp add: dict_update_def)
next
  case (Cons p other)
  obtain k v where p: "p = (k, v)" by (cases p)
  from Cons.prems have wf: "wf_dict other" and notin: "k \<notin> dom (map_of other)"
    by (auto simp: wf_dict_def dict_keys_def p dom_map_of_conv_image_fst)
  have "map_of (dict_update d (p # other)) = map_of (dict_update (AList.update k v d) other)"
    by (simp add: dict_update_def p)
  also have "\<dots> = map_of (AList.update k v d) ++ map_of other"
    using Cons.IH[OF wf] .
  also have "\<dots> = (map_of d)(k \<mapsto> v) ++ map_of other"
    by (simp add: update_conv')
  also have "\<dots> = (map_of d ++ map_of other)(k \<mapsto> v)"
    using notin by (rule map_add_upd_left)
  also have "\<dots> = map_of d ++ map_of (p # other)"
    by (simp add: p)
  finally show ?case .
qed

lemma next_indexed_None: "next_indexed old = None \<longleftrightarrow> \<not> (\<exists>i \<in> set (ta_inputs old). ai_indexed i)"
  by (auto simp: next_indexed_def find_None_iff)

lemma map_of_merge_step:
  "map_of (merge_step (k, v) d) k' = (if k' = k then merged (map_of d k) v else map_of d k')"
  by (simp add: merge_step_def merged_def update_conv' next_indexed_None split: option.splits)


lemma dom_merge_step:
  "dom (map_of (merge_step (k, v) d)) = insert k (dom (map_of d))"
proof
  show "dom (map_of (merge_step (k, v) d)) \<subseteq> insert k (dom (map_of d))"
  proof
    fix x assume "x \<in> dom (map_of (merge_step (k, v) d))"
    then show "x \<in> insert k (dom (map_of d))"
      by (cases "x = k") (simp_all add: dom_def map_of_merge_step)
  qed
next
  have "merged (map_of d k) v \<noteq> None"
    by (simp add: merged_def split: option.splits)
  then show "insert k (dom (map_of d)) \<subseteq> dom (map_of (merge_step (k, v) d))"
    by (auto simp: dom_def map_of_merge_step)
qed

lemma wf_merge_step: "wf_dict d \<Longrightarrow> wf_dict (merge_step p d)"
proof -
  assume wf: "wf_dict d"
  obtain k v where p: "p = (k, v)" by (cases p)
  have "distinct (map fst (AList.update k v d))"
    using wf by (simp add: wf_dict_def dict_keys_def distinct_update)
  then show ?thesis
    using wf by (simp add: p merge_step_def wf_dict_def dict_keys_def split: option.splits)
qed

lemma wf_fold_merge_step: "wf_dict d \<Longrightarrow> wf_dict (fold merge_step tm d)"
  by (induction tm arbitrary: d) (simp_all add: wf_merge_step)

lemma dom_fold_merge_step:
  "dom (map_of (fold merge_step tm d)) = dom (map_of d) \<union> dom (map_of tm)"
proof (induction tm arbitrary: d)
  case Nil
  then show ?case by simp
next
  case (Cons p tm)
  obtain k v where p: "p = (k, v)" by (cases p)
  have "dom (map_of (fold merge_step (p # tm) d)) = dom (map_of (merge_step (k, v) d)) \<union> dom (map_of tm)"
    using Cons.IH[of "merge_step p d"] by (simp add: p)
  also have "\<dots> = dom (map_of d) \<union> dom (map_of (p # tm))"
    by (simp add: dom_merge_step p)
  finally show ?case .
qed

lemma map_of_fold_merge_step:
  "wf_dict tm \<Longrightarrow> map_of (fold merge_step tm d) key =
     (case map_of tm key of None \<Rightarrow> map_of d key | Some v \<Rightarrow> merged (map_of d key) v)"
proof (induction tm arbitrary: d)
  case Nil
  then show ?case by simp
next
  case (Cons p tm)
  obtain k v where p: "p = (k, v)" by (cases p)
  from Cons.prems have wf: "wf_dict tm" and notin: "map_of tm k = None"
    by (simp_all add: wf_dict_def dict_keys_def p map_of_eq_None_iff)
  have step: "map_of (fold merge_step (p # tm) d) key =
     (case map_of tm key of None \<Rightarrow> map_of (merge_step (k, v) d) key
      | Some w \<Rightarrow> merged (map_of (merge_step (k, v) d) key) w)"
    using Cons.IH[OF wf, of "merge_step (k, v) d"] by (simp add: p)
  show ?case
  proof (cases "key = k")
    case True
    with step notin show ?thesis by (simp add: p map_of_merge_step split: option.splits)
  next
    case False
    with step show ?thesis by (simp add: p map_of_merge_step split: option.splits)
  qed
qed

lemma topics_get_topics:
  assumes "wf_dict (topics st)"
  shows "map_of (topics (fst (get_topics st topic_map))) = map_of (fold merge_step topic_map (topics st))"
proof (cases "dict_eq (fold merge_step topic_map (topics st)) (topics st)")
  case True
  then show ?thesis by (simp add: get_topics_def Let_def dict_eq_map_of)
next
  case False
  define u where "u = fold merge_step topic_map (topics st)"
  have wf: "wf_dict u" unfolding u_def using assms by (rule wf_fold_merge_step)
  have sub: "dom (map_of (topics st)) \<subseteq> dom (map_of u)"
    by (simp add: u_def dom_fold_merge_step)
  have "map_of (topics st) ++ map_of u = map_of u"
  proof
    fix k show "(map_of (topics st) ++ map_of u) k = map_of u k"
      using sub by (auto simp: map_add_def split: option.splits)
  qed
  moreover have "topics (fst (get_topics st topic_map)) = dict_update (topics st) u"
    using False by (simp add: get_topics_def Let_def u_def)
  ultimately show ?thesis
    using wf by (simp add: map_of_dict_update u_def)
qed

text \<open>
  Claim C1. Merging an incoming topic map into the global one with \<^verbatim>\<open>_get_topics\<close>: a
  topic absent from the incoming map keeps what the global map held; a topic absent
  from the global map is added; an identical entry changes nothing; a differing entry
  replaces the existing one exactly when the existing entry has no indexed input, and
  otherwise the existing entry stays.
\<close>

theorem get_topics_merge:
  assumes "wf_dict (topics st)" and "wf_dict topic_map"
  shows "map_of (topics (fst (get_topics st topic_map))) key =
     (case map_of topic_map key of
        None \<Rightarrow> map_of (topics st) key
      | Some v \<Rightarrow>
         (case map_of (topics st) key of
            None \<Rightarrow> Some v
          | Some old \<Rightarrow>
              if v = old then Some old
              else if \<not> (\<exists>i \<in> set (ta_inputs old). ai_indexed i) then Some v
              else Some old))"
  using assms by (simp add: topics_get_topics map_of_fold_merge_step merged_def split: option.splits)

theorem get_topics_merge_witness:
  "map_of (topics (fst (get_topics
      \<lparr>topics = [(''0x01'', \<lparr>ta_name = ''Transfer'',
          ta_inputs = [\<lparr>ai_name = ''to'', ai_type = ''address'', ai_indexed = False\<rparr>]\<rparr>)],
       deployment_topics = [], topics_json = []\<rparr>
      [(''0x01'', \<lparr>ta_name = ''Transfer'',
          ta_inputs = [\<lparr>ai_name = ''to'', ai_type = ''address'', ai_indexed = True\<rparr>]\<rparr>)])))
     ''0x01''
   = Some \<lparr>ta_name = ''Transfer'',
          ta_inputs = [\<lparr>ai_name = ''to'', ai_type = ''address'', ai_indexed = True\<rparr>]\<rparr>"
  using get_topics_merge[of
      "\<lparr>topics = [(''0x01'', \<lparr>ta_name = ''Transfer'',
          ta_inputs = [\<lparr>ai_name = ''to'', ai_type = ''address'', ai_indexed = False\<rparr>]\<rparr>)],
       deployment_topics = [], topics_json = []\<rparr>"
      "[(''0x01'', \<lparr>ta_name = ''Transfer'',
          ta_inputs = [\<lparr>ai_name = ''to'', ai_type = ''address'', ai_indexed = True\<rparr>]\<rparr>)]"
      "''0x01''"]
  by (simp add: wf_dict_def dict_keys_def)

lemma fold_merge_step_same:
  "\<forall>(k, v) \<in> set tm. map_of d k = Some v \<Longrightarrow> fold merge_step tm d = d"
  by (induction tm) (auto simp: merge_step_def)

text \<open>
  Claim C9. When the global topic map already holds every entry of the incoming map
  identically, \<^verbatim>\<open>_get_topics\<close> leaves the whole module state as it was: the global map
  is unchanged and nothing is written to \<^verbatim>\<open>topics.json\<close>.
\<close>

theorem get_topics_idempotent:
  assumes "\<forall>(k, v) \<in> set topic_map. map_of (topics st) k = Some v"
  shows "fst (get_topics st topic_map) = st"
  using fold_merge_step_same[OF assms] by (simp add: get_topics_def Let_def dict_eq_def)

theorem get_topics_idempotent_witness:
  "fst (get_topics
      \<lparr>topics = [(''0x01'', \<lparr>ta_name = ''Transfer'',
          ta_inputs = [\<lparr>ai_name = ''to'', ai_type = ''address'', ai_indexed = True\<rparr>]\<rparr>)],
       deployment_topics = [], topics_json = []\<rparr>
      [(''0x01'', \<lparr>ta_name = ''Transfer'',
          ta_inputs = [\<lparr>ai_name = ''to'', ai_type = ''address'', ai_indexed = True\<rparr>]\<rparr>)])
   = \<lparr>topics = [(''0x01'', \<lparr>ta_name = ''Transfer'',
          ta_inputs = [\<lparr>ai_name = ''to'', ai_type = ''address'', ai_indexed = True\<rparr>]\<rparr>)],
       deployment_topics = [], topics_json = []\<rparr>"
  using get_topics_idempotent[of
      "[(''0x01'', \<lparr>ta_name = ''Transfer'',
          ta_inputs = [\<lparr>ai_name = ''to'', ai_type = ''address'', ai_indexed = True\<rparr>]\<rparr>)]"
      "\<lparr>topics = [(''0x01'', \<lparr>ta_name = ''Transfer'',
          ta_inputs = [\<lparr>ai_name = ''to'', ai_type = ''address'', ai_indexed = True\<rparr>]\<rparr>)],
       deployment_topics = [], topics_json = []\<rparr>"]
  by simp

lemma self_merge: "wf_dict d \<Longrightarrow> \<forall>(k, v) \<in> set d. map_of d k = Some v"
  by (auto simp: wf_dict_def dict_keys_def)

section \<open>Properties of the poll loop\<close>

lemma nth_update_field:
  assumes "\<And>e. g (f e) = g e"
  shows "g (xs[i := f (xs ! i)] ! j) = g (xs ! j)"
proof (cases "i < length xs")
  case True
  then show ?thesis using assms by (cases "i = j") simp_all
next
  case False
  then show ?thesis by (simp add: list_update_beyond)
qed

lemma nth_update_flag:
  "stored_cooldown_time_over (xs ! j) \<Longrightarrow>
   stored_cooldown_time_over (xs[i := (xs ! i)\<lparr>stored_cooldown_time_over := True\<rparr>] ! j)"
proof (cases "i < length xs")
  case True
  assume "stored_cooldown_time_over (xs ! j)"
  with True show ?thesis by (cases "i = j") simp_all
next
  case False
  assume "stored_cooldown_time_over (xs ! j)"
  with False show ?thesis by (simp add: list_update_beyond)
qed

lemma keeps_cooldown_refl: "keeps_cooldown w w"
  by (simp add: keeps_cooldown_def)

lemma keeps_cooldown_trans:
  "keeps_cooldown w w1 \<Longrightarrow> keeps_cooldown w1 w2 \<Longrightarrow> keeps_cooldown w w2"
  by (simp add: keeps_cooldown_def)

lemma keeps_cooldown_set_True:
  "keeps_cooldown w (update_obj i (\<lambda>e. e\<lparr>stored_cooldown_time_over := True\<rparr>) w)"
  by (simp add: keeps_cooldown_def update_obj_def nth_update_field nth_update_flag)

lemma keeps_cooldown_filter:
  "keeps_cooldown w (update_obj i (\<lambda>e. e\<lparr>event_filter := r\<rparr>) w)"
  by (simp add: keeps_cooldown_def update_obj_def nth_update_field)

lemma keeps_cooldown_getter:
  "cd_time_over_getter clk w i = (over, w') \<Longrightarrow> keeps_cooldown w w'"
  by (auto simp: cd_time_over_getter_def time_time_def Let_def split: if_splits
      intro!: keeps_cooldown_trans[OF _ keeps_cooldown_set_True])
     (simp_all add: keeps_cooldown_def)

lemma keeps_cooldown_check_timer:
  "check_timer clk w i = (left, w') \<Longrightarrow> keeps_cooldown w w'"
  by (auto simp: check_timer_def cd_time_over_setter_def time_time_def Let_def split: if_splits
      intro!: keeps_cooldown_trans[OF _ keeps_cooldown_set_True])
     (simp_all add: keeps_cooldown_def)

lemma keeps_cooldown_get_new_events:
  "get_new_events w i = (r, w') \<Longrightarrow> keeps_cooldown w w'"
  by (auto simp: get_new_events_def keeps_cooldown_refl keeps_cooldown_filter split: list.splits)

lemma keeps_cooldown_put: "keeps_cooldown w (w\<lparr>queue := q\<rparr>)"
  by (simp add: keeps_cooldown_def)

lemma keeps_cooldown_watch_elems:
  "watch_elems clk elems (w, s) = ((w', s'), err) \<Longrightarrow> keeps_cooldown w w'"
proof (induction elems arbitrary: w s)
  case Nil
  then show ?case by (simp add: keeps_cooldown_refl)
next
  case (Cons elem rest)
  obtain over w1 where g: "cd_time_over_getter clk w elem = (over, w1)"
    by (cases "cd_time_over_getter clk w elem")
  note k1 = keeps_cooldown_getter[OF g]
  show ?case
  proof (cases over)
    case False
    obtain left w2 where c: "check_timer clk w1 elem = (left, w2)"
      by (cases "check_timer clk w1 elem")
    from Cons.prems g False c have "watch_elems clk rest (w2, min s left) = ((w', s'), err)"
      by simp
    from Cons.IH[OF this] k1 keeps_cooldown_check_timer[OF c]
    show ?thesis by (blast intro: keeps_cooldown_trans)
  next
    case True
    obtain r w2 where n: "get_new_events w1 elem = (r, w2)"
      by (cases "get_new_events w1 elem")
    note k2 = keeps_cooldown_trans[OF k1 keeps_cooldown_get_new_events[OF n]]
    show ?thesis
    proof (cases r)
      case (Inl e)
      with Cons.prems g True n have "w' = w2" by simp
      with k2 show ?thesis by simp
    next
      case (Inr latest)
      define w3 where "w3 = (if length latest \<noteq> 0 then w2\<lparr>queue := queue w2 @ [(elem, latest)]\<rparr> else w2)"
      have k3: "keeps_cooldown w w3"
        using k2 by (auto simp: w3_def intro: keeps_cooldown_trans[OF _ keeps_cooldown_put])
      from Cons.prems g True n Inr
      have "watch_elems clk rest (w3, min s (delay (objs w3 ! elem))) = ((w', s'), err)"
        by (simp add: w3_def Let_def)
      from Cons.IH[OF this] k3 show ?thesis by (blast intro: keeps_cooldown_trans)
    qed
  qed
qed


text \<open>
  Claim C7, as the code has it. After a pass of the poll loop the active set holds
  exactly the repeating subscriptions it held before: a subscription registered with
  \<^verbatim>\<open>repeat=False\<close> is removed by the first pass that runs while it is registered, whether
  its cooldown had elapsed or not and whether a log matched or not.
\<close>

theorem watch_pass_prunes:
  "target_events_watch_data (fst (watch_pass clk w)) =
     filter (\<lambda>x. repeat (objs w ! x)) (target_events_watch_data w)"
proof -
  obtain w1 s1 err where e: "watch_elems clk (target_events_watch_data w) (w, 2) = ((w1, s1), err)"
    by (metis prod.exhaust)
  from keeps_cooldown_watch_elems[OF e]
  have "target_events_watch_data w1 = target_events_watch_data w"
    and "\<And>x. repeat (objs w1 ! x) = repeat (objs w ! x)"
    by (simp_all add: keeps_cooldown_def)
  with e show ?thesis by (simp add: watch_pass_def)
qed

theorem watch_pass_prunes_witness:
  "target_events_watch_data (fst (watch_pass (\<lambda>n. 10)
      (fst (add_event_callback (\<lambda>n. 0) (EventWatcher_init :: (nat, nat) EventWatcher) 0 2 False []))))
     = []"
  using watch_pass_prunes[of "\<lambda>n. 10"
      "fst (add_event_callback (\<lambda>n. 0) (EventWatcher_init :: (nat, nat) EventWatcher) 0 2 False [])"]
  by (simp add: add_event_callback_def add_event_callback'_def start_threads_def thread_start_def
      EventWatcher_init_def EventWatchData_init_def update_trigger_time_def time_time_def
      update_obj_def Let_def)

text \<open>
  Claim C7 as stated fails: a subscription with \<^verbatim>\<open>repeat=False\<close> and a delay of 2 seconds is
  registered at time 0 and the first pass runs at time 0. The pass reads the cooldown as
  not elapsed, polls nothing and queues nothing, and the subscription is removed all the
  same.
\<close>

theorem non_repeating_removed_before_cooldown:
  "target_events_watch_data
     (fst (add_event_callback (\<lambda>n. 0) (EventWatcher_init :: (nat, nat) EventWatcher) 0 2 False [Inr [5]]))
     = [0]
   \<and> fst (cd_time_over_getter (\<lambda>n. 0)
       (fst (add_event_callback (\<lambda>n. 0) (EventWatcher_init :: (nat, nat) EventWatcher) 0 2 False [Inr [5]])) 0)
     = False
   \<and> target_events_watch_data (fst (watch_pass (\<lambda>n. 0)
       (fst (add_event_callback (\<lambda>n. 0) (EventWatcher_init :: (nat, nat) EventWatcher) 0 2 False [Inr [5]]))))
     = []
   \<and> queue (fst (watch_pass (\<lambda>n. 0)
       (fst (add_event_callback (\<lambda>n. 0) (EventWatcher_init :: (nat, nat) EventWatcher) 0 2 False [Inr [5]]))))
     = []"
  by (simp add: add_event_callback_def add_event_callback'_def start_threads_def thread_start_def
      EventWatcher_init_def EventWatchData_init_def update_trigger_time_def time_time_def
      update_obj_def Let_def watch_pass_def cd_time_over_getter_def check_timer_def
      cd_time_over_setter_def)

section \<open>Properties of \<^verbatim>\<open>EventWatcher.stop\<close>\<close>

text \<open>
  Claim C10. While the watcher thread has not been started (no subscription was ever
  registered, as in the state \<^verbatim>\<open>EventWatcher()\<close> builds), \<^verbatim>\<open>stop(wait=True)\<close> sets the kill
  flag and raises \<^verbatim>\<open>RuntimeError\<close> from the first \<^verbatim>\<open>join()\<close>.
\<close>

theorem stop_idle_raises:
  assumes "watcher_thread w = Initial"
  shows "stop w True = (w\<lparr>kill := True\<rparr>, Some RuntimeError)"
  using assms by (simp add: stop_def thread_join_def)

theorem stop_idle_raises_witness:
  "stop (EventWatcher_init :: (nat, nat) EventWatcher) True
     = (EventWatcher_init\<lparr>kill := True\<rparr>, Some RuntimeError)"
  using stop_idle_raises[of "EventWatcher_init :: (nat, nat) EventWatcher"]
  by (simp add: EventWatcher_init_def)

section \<open>The cooldown state across poll and dispatch\<close>

lemma objs_fold_calls:
  "objs (fold (\<lambda>data w'. w'\<lparr>calls := calls w' @ [(callback (objs w' ! i), data)]\<rparr>) evs w) = objs w"
  by (induction evs arbitrary: w) simp_all

lemma trigger_callback_resets:
  assumes "i < length (objs w)"
  shows "\<not> stored_cooldown_time_over (objs (trigger_callback clk w i evs) ! i)"
    and "last_trigger_time (objs (trigger_callback clk w i evs) ! i) = clk (ticks w)"
  using assms
  by (simp_all add: trigger_callback_def objs_fold_calls update_trigger_time_def time_time_def
      cd_time_over_setter_def update_obj_def Let_def)

lemma getter_filter:
  "cd_time_over_getter clk w i = (over, w1) \<Longrightarrow>
   event_filter (objs w1 ! i) = event_filter (objs w ! i) \<and> queue w1 = queue w
   \<and> (over \<longrightarrow> stored_cooldown_time_over (objs w1 ! i))"
  by (auto simp: cd_time_over_getter_def time_time_def update_obj_def Let_def nth_update_field
      split: if_splits)

text \<open>
  Claim C8. When the poll loop reaches a subscription whose cooldown reads as elapsed and
  whose filter gives new entries, it queues the dispatch task and leaves the last trigger
  time as it was and the stored cooldown flag as the cooldown read left it (set); running
  the queued \<^verbatim>\<open>_trigger_callback\<close> is what clears the flag and sets the last trigger
  time to the clock.
\<close>

theorem poll_enqueue_keeps_cooldown:
  assumes "i < length (objs w)"
      and "cd_time_over_getter clk w i = (True, w1)"
      and "event_filter (objs w ! i) = Inr latest # later"
      and "latest \<noteq> []"
  shows "\<exists>w' s'. watch_elems clk [i] (w, s) = ((w', s'), None)
      \<and> queue w' = queue w @ [(i, latest)]
      \<and> last_trigger_time (objs w' ! i) = last_trigger_time (objs w ! i)
      \<and> stored_cooldown_time_over (objs w' ! i) = stored_cooldown_time_over (objs w1 ! i)
      \<and> stored_cooldown_time_over (objs w' ! i)
      \<and> \<not> stored_cooldown_time_over (objs (trigger_callback clk w' i latest) ! i)
      \<and> last_trigger_time (objs (trigger_callback clk w' i latest) ! i) = clk (ticks w')"
proof -
  from getter_filter[OF assms(2)] assms(3)
  have f1: "event_filter (objs w1 ! i) = Inr latest # later" and q1: "queue w1 = queue w"
    and s1: "stored_cooldown_time_over (objs w1 ! i)"
    by simp_all
  define w2 where "w2 = update_obj i (\<lambda>e. e\<lparr>event_filter := later\<rparr>) w1"
  define w3 where "w3 = w2\<lparr>queue := queue w2 @ [(i, latest)]\<rparr>"
  have n: "get_new_events w1 i = (Inr latest, w2)"
    by (simp add: get_new_events_def f1 w2_def)
  have run: "watch_elems clk [i] (w, s) = ((w3, min s (delay (objs w3 ! i))), None)"
    using assms(2,4) n by (simp add: w3_def)
  have k: "keeps_cooldown w w3"
    using keeps_cooldown_watch_elems[OF run] .
  have len: "i < length (objs w3)"
    using k assms(1) by (simp add: keeps_cooldown_def)
  have ltt: "last_trigger_time (objs w3 ! i) = last_trigger_time (objs w ! i)"
    using k by (simp add: keeps_cooldown_def)
  have flag: "stored_cooldown_time_over (objs w3 ! i) = stored_cooldown_time_over (objs w1 ! i)"
    by (simp add: w3_def w2_def update_obj_def nth_update_field)
  have q: "queue w3 = queue w @ [(i, latest)]"
    by (simp add: w3_def w2_def update_obj_def q1)
  show ?thesis
    using run q ltt flag s1 trigger_callback_resets[OF len, of clk latest] by simp
qed


theorem poll_enqueue_keeps_cooldown_witness:
  "\<exists>w' s'. watch_elems (\<lambda>n. if n = 0 then 0 else 10) [0]
        (fst (add_event_callback (\<lambda>n. if n = 0 then 0 else 10)
               (EventWatcher_init :: (nat, nat) EventWatcher) 0 2 True [Inr [5]]), 2)
        = ((w', s'), None)
      \<and> queue w' = [(0, [5])]
      \<and> last_trigger_time (objs w' ! 0) = 0
      \<and> stored_cooldown_time_over (objs w' ! 0)
      \<and> \<not> stored_cooldown_time_over
            (objs (trigger_callback (\<lambda>n. if n = 0 then 0 else 10) w' 0 [5]) ! 0)
      \<and> last_trigger_time (objs (trigger_callback (\<lambda>n. if n = 0 then 0 else 10) w' 0 [5]) ! 0) = 10"
  using poll_enqueue_keeps_cooldown[of 0
      "fst (add_event_callback (\<lambda>n. if n = 0 then 0 else 10)
               (EventWatcher_init :: (nat, nat) EventWatcher) 0 2 True [Inr [5]])"
      "\<lambda>n. if n = 0 then 0 else 10"
      "snd (cd_time_over_getter (\<lambda>n. if n = 0 then 0 else 10)
         (fst (add_event_callback (\<lambda>n. if n = 0 then 0 else 10)
               (EventWatcher_init :: (nat, nat) EventWatcher) 0 2 True [Inr [5]])) 0)"
      "[5]" "[]" 2]
  by (simp add: add_event_callback_def add_event_callback'_def start_threads_def thread_start_def
      EventWatcher_init_def EventWatchData_init_def update_trigger_time_def time_time_def
      update_obj_def Let_def cd_time_over_getter_def get_new_events_def)

section \<open>Properties of \<^verbatim>\<open>_decode_logs\<close>\<close>

lemma decode_slice_append:
  "decode_slice dec c tm a (xs @ ys) acc =
     (case decode_slice dec c tm a xs acc of
        (acc', Some e) \<Rightarrow> (acc', Some e)
      | (acc', None) \<Rightarrow> decode_slice dec c tm a ys acc')"
proof (induction xs arbitrary: acc)
  case Nil
  then show ?case by simp
next
  case (Cons x xs)
  obtain events warns where acc: "acc = (events, warns)" by (cases acc)
  show ?case
    unfolding acc
    by (simp add: Cons.IH split: sum.splits option.splits error.splits)
qed

lemma decode_in_order_run:
  "\<forall>x \<in> set xs. log_address x = a \<Longrightarrow>
   decode_in_order dec st c xs acc = decode_slice dec c (topics_for st a) a xs acc"
proof (induction xs arbitrary: acc)
  case Nil
  then show ?case by simp
next
  case (Cons x xs)
  then have a: "log_address x = a" and rest: "\<forall>y \<in> set xs. log_address y = a" by simp_all
  have "decode_slice dec c (topics_for st a) a (x # xs) acc =
      (case decode_slice dec c (topics_for st a) a [x] acc of
        (acc', Some e) \<Rightarrow> (acc', Some e)
      | (acc', None) \<Rightarrow> decode_slice dec c (topics_for st a) a xs acc')"
    using decode_slice_append[of dec c "topics_for st a" a "[x]" xs acc] by simp
  then show ?case
    using Cons.IH[OF rest] by (simp add: a split: prod.splits option.splits)
qed

lemma decode_in_order_append:
  "decode_in_order dec st c (xs @ ys) acc =
     (case decode_in_order dec st c xs acc of
        (acc', Some e) \<Rightarrow> (acc', Some e)
      | (acc', None) \<Rightarrow> decode_in_order dec st c ys acc')"
  by (induction xs arbitrary: acc) (simp_all split: prod.splits option.splits)

lemma list_index_nth:
  "distinct xs \<Longrightarrow> n < length xs \<Longrightarrow> list_index xs (xs ! n) = Some n"
proof (induction xs arbitrary: n)
  case Nil
  then show ?case by simp
next
  case (Cons y ys)
  show ?case
  proof (cases n)
    case 0
    then show ?thesis by simp
  next
    case (Suc m)
    with Cons.prems have "ys ! m \<in> set ys" "y \<notin> set ys" by simp_all
    then have "y \<noteq> ys ! m" by blast
    with Cons Suc show ?thesis by simp
  qed
qed

lemma next_slice_rest:
  assumes "idx < length logs"
      and "find (\<lambda>i. log_address i \<noteq> log_address (logs ! idx)) (drop idx logs) = None"
  shows "next_slice logs idx = Inr (log_address (logs ! idx), drop idx logs, idx)"
    and "\<forall>x \<in> set (drop idx logs). log_address x = log_address (logs ! idx)"
proof -
  show "next_slice logs idx = Inr (log_address (logs ! idx), drop idx logs, idx)"
    using assms by (simp add: next_slice_def Let_def)
  show "\<forall>x \<in> set (drop idx logs). log_address x = log_address (logs ! idx)"
    using assms(2) by (simp add: find_None_iff)
qed

lemma next_slice_run:
  assumes "distinct logs" and "idx < length logs"
      and "find (\<lambda>i. log_address i \<noteq> log_address (logs ! idx)) (drop idx logs) = Some x"
  shows "\<exists>k. 0 < k \<and> idx + k < length logs
      \<and> next_slice logs idx = Inr (log_address (logs ! idx), take k (drop idx logs), idx + k)
      \<and> (\<forall>y \<in> set (take k (drop idx logs)). log_address y = log_address (logs ! idx))"
proof -
  let ?a = "log_address (logs ! idx)"
  from assms(3) obtain k where k: "k < length (drop idx logs)"
      and pk: "log_address (drop idx logs ! k) \<noteq> ?a"
      and xk: "x = drop idx logs ! k"
      and before: "\<forall>j < k. \<not> log_address (drop idx logs ! j) \<noteq> ?a"
    unfolding find_Some_iff by blast
  from k have lt: "idx + k < length logs" by simp
  have x: "x = logs ! (idx + k)" using xk assms(2) by simp
  have "k \<noteq> 0"
  proof
    assume "k = 0"
    with pk assms(2) show False by simp
  qed
  then have pos: "0 < k" by simp
  have ix: "list_index logs x = Some (idx + k)"
    unfolding x using assms(1) lt by (rule list_index_nth)
  have run: "\<forall>y \<in> set (take k (drop idx logs)). log_address y = ?a"
  proof
    fix y assume "y \<in> set (take k (drop idx logs))"
    then obtain j where "j < length (take k (drop idx logs))" "y = take k (drop idx logs) ! j"
      by (metis in_set_conv_nth)
    with before k show "log_address y = ?a" by simp
  qed
  have "next_slice logs idx = Inr (?a, take k (drop idx logs), idx + k)"
    using assms(2,3) ix by (simp add: next_slice_def list_slice_def)
  with pos lt run show ?thesis by blast
qed


lemma decode_loop_in_order:
  assumes "distinct logs"
  shows "idx < length logs \<Longrightarrow>
     decode_loop dec st c logs idx acc = decode_in_order dec st c (drop idx logs) acc"
proof (induction "length logs - idx" arbitrary: idx acc rule: less_induct)
  case less
  let ?a = "log_address (logs ! idx)"
  show ?case
  proof (cases "find (\<lambda>i. log_address i \<noteq> ?a) (drop idx logs)")
    case None
    note ns = next_slice_rest[OF less.prems None]
    have ne: "drop idx logs \<noteq> []" using less.prems by simp
    have "decode_loop dec st c logs idx acc
        = decode_slice dec c (topics_for st ?a) ?a (drop idx logs) acc"
      using ne less.prems
      by (subst decode_loop.simps) (simp add: ns(1) split: prod.splits option.splits)
    also have "\<dots> = decode_in_order dec st c (drop idx logs) acc"
      by (rule decode_in_order_run[OF ns(2), symmetric])
    finally show ?thesis .
  next
    case (Some x)
    from next_slice_run[OF assms less.prems Some] obtain k where
      pos: "0 < k" and lt: "idx + k < length logs"
      and ns: "next_slice logs idx = Inr (?a, take k (drop idx logs), idx + k)"
      and run: "\<forall>y \<in> set (take k (drop idx logs)). log_address y = ?a"
      by blast
    let ?sl = "take k (drop idx logs)"
    have ne: "?sl \<noteq> []" using pos less.prems by simp
    have len: "length ?sl = k" using lt by simp
    have "last ?sl = ?sl ! (k - 1)"
      using ne len by (simp add: last_conv_nth)
    also have "\<dots> = logs ! (idx + (k - 1))"
      using pos lt by simp
    finally have l1: "last ?sl = logs ! (idx + (k - 1))" .
    have "logs \<noteq> []" using less.prems by auto
    then have l2: "last logs = logs ! (length logs - 1)"
      by (rule last_conv_nth)
    have "idx + (k - 1) \<noteq> length logs - 1" using pos lt by arith
    moreover have "idx + (k - 1) < length logs" "length logs - 1 < length logs"
      using lt by arith+
    ultimately have neq: "last ?sl \<noteq> last logs"
      unfolding l1 l2 using assms by (simp add: nth_eq_iff_index_eq)
    have ih: "\<And>acc'. decode_loop dec st c logs (idx + k) acc'
        = decode_in_order dec st c (drop (idx + k) logs) acc'"
      using less.hyps[of "idx + k"] pos lt by simp
    have split_drop: "drop idx logs = ?sl @ drop (idx + k) logs"
      by (metis add.commute append_take_drop_id drop_drop)
    have "decode_loop dec st c logs idx acc =
        (case decode_slice dec c (topics_for st ?a) ?a ?sl acc of
           (acc', Some e) \<Rightarrow> (acc', Some e)
         | (acc', None) \<Rightarrow> decode_in_order dec st c (drop (idx + k) logs) acc')"
      using ne neq
      by (subst decode_loop.simps) (simp add: ns ih split: prod.splits option.splits)
    also have "\<dots> = (case decode_in_order dec st c ?sl acc of
           (acc', Some e) \<Rightarrow> (acc', Some e)
         | (acc', None) \<Rightarrow> decode_in_order dec st c (drop (idx + k) logs) acc')"
      by (simp only: decode_in_order_run[OF run])
    also have "\<dots> = decode_in_order dec st c (drop idx logs) acc"
      by (subst split_drop) (simp add: decode_in_order_append)
    finally show ?thesis .
  qed
qed

lemma decode_slice_single:
  "decode_slice dec c (topics_for st (log_address item)) (log_address item) [item] (events, warns) =
     (case decode_item dec st c item of
        Inl e \<Rightarrow> ((events, warns), Some e)
      | Inr (evs, ws) \<Rightarrow> ((events @ evs, warns @ ws), None))"
  by (auto simp: decode_item_def split: sum.splits option.splits error.splits)

lemma decode_in_order_items:
  "decode_in_order dec st c logs (events, warns) =
     ((events @ concat (map (item_events dec st c)
                  (takeWhile (\<lambda>i. item_raises dec st c i = None) logs)),
       warns @ concat (map (item_warnings dec st c)
                  (takeWhile (\<lambda>i. item_raises dec st c i = None) logs))),
      first_error dec st c logs)"
proof (induction logs arbitrary: events warns)
  case Nil
  then show ?case by simp
next
  case (Cons item rest)
  show ?case
  proof (cases "decode_item dec st c item")
    case (Inl e)
    then show ?thesis
      by (simp add: decode_slice_single item_raises_def del: decode_slice.simps)
  next
    case (Inr r)
    obtain evs ws where r: "r = (evs, ws)" by (cases r)
    show ?thesis
      using Inr r Cons.IH[of "events @ evs" "warns @ ws"]
      by (simp add: decode_slice_single item_raises_def item_events_def item_warnings_def
          del: decode_slice.simps)
  qed
qed

lemma first_error_None:
  "first_error dec st c logs = None \<Longrightarrow>
   takeWhile (\<lambda>i. item_raises dec st c i = None) logs = logs"
  by (induction logs) (auto split: option.splits)

lemma ordered_logs_distinct:
  "sorted_wrt (<) (map logIndex logs) \<Longrightarrow> distinct logs"
proof -
  assume "sorted_wrt (<) (map logIndex logs)"
  then have "distinct (map logIndex logs)" by (simp add: strict_sorted_iff)
  then show "distinct logs" by (simp add: distinct_map)
qed

text \<open>
  Claim C3. The logs of a sequence in the order of occurrence are pairwise different
  entries (each has its own log index, see \<open>ordered_logs_distinct\<close>), which is what
  \<^verbatim>\<open>logs.index\<close> and the comparison with \<^verbatim>\<open>logs[-1]\<close> at the end of the loop rely on. For
  such logs the scan of \<^verbatim>\<open>_decode_logs\<close> by runs of one emitting address gives this: the
  entries are taken one by one in the order of the input, up to the first whose decoding
  raises, if any; the warnings are theirs in that order; and without an exception the
  \<^verbatim>\<open>EventDict\<close> holds, at positions 0, 1, 2, ..., one item per event of the concatenation,
  in input order, of what each entry contributes, formatted. Every entry occurs once in
  that concatenation.
\<close>

theorem decode_logs_entry_by_entry:
  assumes "distinct logs"
  shows "decode_logs dec fmt st logs contracts =
     (concat (map (item_warnings dec st contracts)
        (takeWhile (\<lambda>i. item_raises dec st contracts i = None) logs)),
      case first_error dec st contracts logs of
        Some e \<Rightarrow> Inl e
      | None \<Rightarrow>
          (let items = map (\<lambda>(p, i). EventItem (ev_name i) (Some (ev_address i))
                  [Fields (OrderedDict (map (\<lambda>x. (in_name x, in_value x)) (ev_data i)))] [p])
                (enumerate 0 (map fmt (concat (map (item_events dec st contracts) logs))))
           in Inr \<lparr>ed_ordered = items, ed_dict = fold (group_step items) items []\<rparr>))"
proof (cases "logs = []")
  case True
  then show ?thesis by (simp add: decode_logs_def EventDict_init_def)
next
  case False
  have loop: "decode_loop dec st contracts logs 0 ([], []) =
     decode_in_order dec st contracts logs ([], [])"
    using decode_loop_in_order[OF assms, of 0 dec st contracts "([], [])"] False by simp
  have si: "single_item = (\<lambda>(p, i). EventItem (ev_name i) (Some (ev_address i))
       [Fields (OrderedDict (map (\<lambda>x. (in_name x, in_value x)) (ev_data i)))] [p])"
    by (simp add: single_item_def)
  show ?thesis
  proof (cases "first_error dec st contracts logs")
    case None
    note tw = first_error_None[OF None]
    from False loop None show ?thesis
      by (simp add: decode_logs_def decode_in_order_items EventDict_init_def Let_def si tw)
  next
    case (Some e)
    with False loop show ?thesis
      by (simp add: decode_logs_def decode_in_order_items)
  qed
qed


theorem decode_logs_entry_by_entry_witness:
  "fst (decode_logs
      (\<lambda>items tm allow. Inr (map (\<lambda>l. \<lparr>ev_name = log_data l, ev_address = log_address l,
          ev_decoded = True, ev_data = ([] :: nat event_input list)\<rparr>) items))
      (\<lambda>e. e)
      \<lparr>topics = [], deployment_topics = [], topics_json = []\<rparr>
      [\<lparr>log_address = ''0xA1'', log_topics = [[1]], log_data = ''0x01'', logIndex = 0\<rparr>,
       \<lparr>log_address = ''0xB2'', log_topics = [[1]], log_data = ''0x02'', logIndex = 1\<rparr>,
       \<lparr>log_address = ''0xA1'', log_topics = [[1]], log_data = ''0x03'', logIndex = 2\<rparr>] None) = []
   \<and> map_sum (\<lambda>e. e) (\<lambda>r. map (\<lambda>i. (name i, address i, pos i)) (ed_ordered r)) (snd (decode_logs
      (\<lambda>items tm allow. Inr (map (\<lambda>l. \<lparr>ev_name = log_data l, ev_address = log_address l,
          ev_decoded = True, ev_data = ([] :: nat event_input list)\<rparr>) items))
      (\<lambda>e. e)
      \<lparr>topics = [], deployment_topics = [], topics_json = []\<rparr>
      [\<lparr>log_address = ''0xA1'', log_topics = [[1]], log_data = ''0x01'', logIndex = 0\<rparr>,
       \<lparr>log_address = ''0xB2'', log_topics = [[1]], log_data = ''0x02'', logIndex = 1\<rparr>,
       \<lparr>log_address = ''0xA1'', log_topics = [[1]], log_data = ''0x03'', logIndex = 2\<rparr>] None))
     = Inr [(''0x01'', Some ''0xA1'', [0]), (''0x02'', Some ''0xB2'', [1]), (''0x03'', Some ''0xA1'', [2])]"
  using decode_logs_entry_by_entry[of
      "[\<lparr>log_address = ''0xA1'', log_topics = [[1]], log_data = ''0x01'', logIndex = 0\<rparr>,
        \<lparr>log_address = ''0xB2'', log_topics = [[1]], log_data = ''0x02'', logIndex = 1\<rparr>,
        \<lparr>log_address = ''0xA1'', log_topics = [[1]], log_data = ''0x03'', logIndex = 2\<rparr>]"
      "\<lambda>items tm allow. Inr (map (\<lambda>l. \<lparr>ev_name = log_data l, ev_address = log_address l,
          ev_decoded = True, ev_data = ([] :: nat event_input list)\<rparr>) items)"
      "\<lambda>e. e" "\<lparr>topics = [], deployment_topics = [], topics_json = []\<rparr>" None]
  by (simp add: item_events_def item_warnings_def item_raises_def decode_item_def try_ds_note_def
      enumerate_eq_zip upt_rec Let_def numeral_2_eq_2)

text \<open>
  The order of occurrence is used. Were two entries of the input equal (here the first and
  the third, log index included), \<^verbatim>\<open>logs.index\<close> would give the position of the first of
  them for the end of a later run; the slice is then empty and \<^verbatim>\<open>log_slice[-1]\<close> raises.
\<close>

lemma decode_logs_equal_entries:
  "snd (decode_logs (\<lambda>items tm allow. Inr ([] :: nat event list)) (\<lambda>e. e)
      \<lparr>topics = [], deployment_topics = [], topics_json = []\<rparr>
      [\<lparr>log_address = ''0xA1'', log_topics = [[1]], log_data = ''0x'', logIndex = 0\<rparr>,
       \<lparr>log_address = ''0xB2'', log_topics = [[1]], log_data = ''0x'', logIndex = 1\<rparr>,
       \<lparr>log_address = ''0xA1'', log_topics = [[1]], log_data = ''0x'', logIndex = 0\<rparr>,
       \<lparr>log_address = ''0xB2'', log_topics = [[1]], log_data = ''0x'', logIndex = 3\<rparr>] None)
   = Inl IndexError"
  by (simp add: decode_logs_def decode_loop.simps next_slice_def try_ds_note_def topics_for_def
      list_slice_def Let_def)

section \<open>Properties of the ds-note decoder\<close>

text \<open>
  Claim C6 fails on an entry without topics (an anonymous event without indexed
  arguments): \<^verbatim>\<open>log.topics[0]\<close> raises \<^verbatim>\<open>IndexError\<close> before any of the checks, outside the
  \<^verbatim>\<open>try\<close> block, and the exception leaves \<^verbatim>\<open>_decode_ds_note\<close>.
\<close>

theorem decode_ds_note_no_topics:
  assumes "log_topics lg = []"
  shows "decode_ds_note lg contract = Inl IndexError"
  using assms by (simp add: decode_ds_note_def)

theorem decode_ds_note_no_topics_witness:
  "decode_ds_note \<lparr>log_address = ''0xA1'', log_topics = [], log_data = ''0x'', logIndex = 0\<rparr>
     \<lparr>selectors = [], decode_input = (\<lambda>b. Inl ValueError), get_method_inputs = (\<lambda>s. None)\<rparr>
   = (Inl IndexError :: error + nat event option)"
  using decode_ds_note_no_topics[of
     "\<lparr>log_address = ''0xA1'', log_topics = [], log_data = ''0x'', logIndex = 0\<rparr>"
     "\<lparr>selectors = [], decode_input = (\<lambda>b. Inl ValueError), get_method_inputs = (\<lambda>s. None)\<rparr>"]
  by simp

text \<open>
  On an entry with at least one topic and well-formed hex data the decoder returns, with
  an event or with nothing, as long as \<^verbatim>\<open>decode_input\<close> raises nothing but \<^verbatim>\<open>ValueError\<close>
  and every known selector has a method object.
\<close>

lemma decode_ds_note_returns:
  assumes "log_topics lg \<noteq> []"
      and "fromhex (drop 2 (log_data lg)) = Inr data"
      and "\<And>b e. decode_input contract b = Inl e \<Longrightarrow> e = ValueError"
      and "\<And>s. dict_contains s (selectors contract) \<Longrightarrow> get_method_inputs contract s \<noteq> None"
  shows "\<exists>r. decode_ds_note lg contract = Inr r"
proof (cases "log_topics lg")
  case Nil
  with assms(1) show ?thesis by simp
next
  case (Cons topic0 rest)
  show ?thesis
  proof (cases "dict_contains (hex (take 4 topic0)) (selectors contract)")
    case False
    then show ?thesis by (simp add: decode_ds_note_def Cons Let_def)
  next
    case True
    then have "map_of (selectors contract) (hex (take 4 topic0)) \<noteq> None"
      by (simp add: dict_contains_def dict_keys_def map_of_eq_None_iff)
    then obtain nm where nm: "map_of (selectors contract) (hex (take 4 topic0)) = Some nm"
      by blast
    from assms(4)[OF True] obtain inputs
      where inputs: "get_method_inputs contract (hex (take 4 topic0)) = Some inputs"
      by auto
    show ?thesis
      using assms(2,3) nm inputs True
      by (auto simp: decode_ds_note_def Cons Let_def split: option.splits sum.splits error.splits)
  qed
qed

section \<open>Entries that fail to decode\<close>




end
